theory Spec2Isabelle
  imports Complex_Main
begin

section \<open>JavaScript values that cross the socket\<close>

text \<open>
  The relay (\<^verbatim>\<open>src/unnamed/part_000\<close>) reads every inbound frame with
  \<^verbatim>\<open>JSON.parse\<close>. A parsed value is one of the six JSON kinds. A number is a finite
  double, hence a rational (a literal that overflows parses to an infinity, which behaves
  here like any other non-zero number: only its truthiness is ever looked at). The members
  of an object are kept in the order of the text.
\<close>

datatype json =
    JNull
  | JBool bool
  | JNum rat
  | JStr string
  | JArr "json list"
  | JObj "(string \<times> json) list"

text \<open>
  What the code can throw or pass to \<^verbatim>\<open>reject\<close>: the \<^verbatim>\<open>SyntaxError\<close> of
  \<^verbatim>\<open>JSON.parse\<close>, the \<^verbatim>\<open>TypeError\<close> of a property read on \<^verbatim>\<open>null\<close>, and
  \<^verbatim>\<open>new Error(x)\<close>, kept with the value \<open>x\<close> it was built from (its message is the
  string of \<open>x\<close>; everywhere but in line 92 \<open>x\<close> is a string literal of the source, and
  line 92 is guarded by \<open>toString_throws\<close> below).
\<close>

datatype js_error = SyntaxError | TypeError | NewError json

text \<open>
  \<^verbatim>\<open>message.k\<close>: throws on \<^verbatim>\<open>null\<close>; on an object it is the member \<open>k\<close> (the last
  one when the text repeats a key, as \<^verbatim>\<open>JSON.parse\<close> keeps it) or \<^verbatim>\<open>undefined\<close>,
  written \<open>None\<close>; on a boolean, number, string or array it is \<^verbatim>\<open>undefined\<close> for each
  of the names the relay reads (type, token, requestId, success, data, error).
\<close>

fun get_prop :: "json \<Rightarrow> string \<Rightarrow> js_error + json option" where
  "get_prop JNull k = Inl TypeError"
| "get_prop (JObj kvs) k = Inr (map_of (rev kvs) k)"
| "get_prop (JBool b) k = Inr None"
| "get_prop (JNum x) k = Inr None"
| "get_prop (JStr s) k = Inr None"
| "get_prop (JArr xs) k = Inr None"

text \<open>JavaScript truthiness of a value that came out of a parsed message.\<close>

fun truthy :: "json option \<Rightarrow> bool" where
  "truthy None = False"
| "truthy (Some JNull) = False"
| "truthy (Some (JBool b)) = b"
| "truthy (Some (JNum x)) = (x \<noteq> 0)"
| "truthy (Some (JStr s)) = (s \<noteq> [])"
| "truthy (Some (JArr xs)) = True"
| "truthy (Some (JObj kvs)) = True"

section \<open>Decimal text of a number in a template literal\<close>

definition digit_char :: "nat \<Rightarrow> char" where
  "digit_char d = ''0123456789'' ! d"

function show_nat :: "nat \<Rightarrow> string" where
  "show_nat n =
     (if n < 10 then [digit_char n] else show_nat (n div 10) @ [digit_char (n mod 10)])"
  by pat_completeness auto
termination
  by (relation "measure (\<lambda>n. n)") auto

declare show_nat.simps [simp del]

section \<open>Start of the process (lines 14 to 33)\<close>

text \<open>\<^verbatim>\<open>s.split('=')\<close>: the pieces of \<open>s\<close> between the separators, at least one piece.\<close>

fun split_on :: "char \<Rightarrow> string \<Rightarrow> string list" where
  "split_on c [] = [[]]"
| "split_on c (x # xs) =
     (if x = c then [] # split_on c xs
      else (case split_on c xs of
              [] \<Rightarrow> [[x]]
            | y # ys \<Rightarrow> (x # y) # ys))"

definition startsWith :: "string \<Rightarrow> string \<Rightarrow> bool" where
  "startsWith s p = (take (length p) s = p)"

text \<open>\<^verbatim>\<open>xs[i]\<close> of JavaScript: \<^verbatim>\<open>undefined\<close> (here \<open>None\<close>) out of range.\<close>

definition js_index :: "'a list \<Rightarrow> nat \<Rightarrow> 'a option" where
  "js_index xs i = (if i < length xs then Some (xs ! i) else None)"

definition tokenArg :: "string list \<Rightarrow> string option" where
  "tokenArg args = find (\<lambda>arg. startsWith arg ''--token='') args"

text \<open>
  Line 17: \<^verbatim>\<open>tokenArg ? tokenArg.split('=')[1] : null\<close>. Both \<^verbatim>\<open>null\<close> and
  \<^verbatim>\<open>undefined\<close> are \<open>None\<close>: line 28 only tests the value for falsiness.
\<close>

definition parse_AUTH_TOKEN :: "string list \<Rightarrow> string option" where
  "parse_AUTH_TOKEN args =
     (case tokenArg args of
        None \<Rightarrow> None
      | Some a \<Rightarrow> js_index (split_on CHR ''='' a) 1)"

definition WS_PORT :: nat where
  "WS_PORT = 8765"

text \<open>
  What the top level of the module does, in the order of its statements, up to the
  registration of the connection handler.
\<close>

datatype startup_effect =
    NewWebSocketServer nat
  | ConsoleError string
  | ProcessExit nat
  | OnListening
  | OnServerError
  | OnConnection

definition no_token_lines :: "string list" where
  "no_token_lines =
     [[CHR 0xE2, CHR 0x9D, CHR 0x8C] @ '' ERROR: No authentication token provided!'',
      ''   Run: node generate-token.cjs to create a secure token'',
      ''   Then add it to your MCP config: --token=YOUR_TOKEN'']"

text \<open>
  Line 25 constructs the \<^verbatim>\<open>WebSocketServer\<close> on the port (the comment of line 24:
  "Start WebSocket server"); the test of the token follows in line 28. The result is the
  trace of effects and, when the process goes on, the secret it runs with.
\<close>

definition startup :: "string list \<Rightarrow> startup_effect list \<times> string option" where
  "startup args =
     (let tok = parse_AUTH_TOKEN args;
          wss = [NewWebSocketServer WS_PORT]
      in case tok of
           None \<Rightarrow> (wss @ map ConsoleError no_token_lines @ [ProcessExit 1], None)
         | Some t \<Rightarrow>
             if t = [] then (wss @ map ConsoleError no_token_lines @ [ProcessExit 1], None)
             else (wss @ [OnListening, OnServerError, OnConnection], Some t))"

section \<open>State of the relay\<close>

datatype ready_state = CONNECTING | OPEN | CLOSING | CLOSED

text \<open>
  One socket handed to the connection handler: the \<^verbatim>\<open>authenticated\<close> variable of
  its closure (line 46), the \<^verbatim>\<open>readyState\<close> of the socket, and the payloads the code
  passed to \<^verbatim>\<open>ws.send\<close>, oldest first, each as the value given to
  \<^verbatim>\<open>JSON.stringify\<close>.
\<close>

record connection =
  authenticated :: bool
  readyState :: ready_state
  sent :: "json list"

text \<open>
  The two functions stored under a request id. Every call of
  \<^verbatim>\<open>sendCommandToExtension\<close> is numbered; the promise it returns and the timer it
  sets carry that number. \<open>Raw n\<close> is the pair of line 132 (the promise's own
  \<^verbatim>\<open>resolve\<close> and \<^verbatim>\<open>reject\<close>), \<open>Wrapped n\<close> the pair of lines 146 to 155, which
  clears the timer of call \<open>n\<close> first.
\<close>

datatype continuation = Raw nat | Wrapped nat

text \<open>What the callback of \<^verbatim>\<open>setTimeout\<close> (lines 135 to 140) closes over.\<close>

record timer =
  t_requestId :: string
  t_timeout :: nat

datatype outcome = Resolved "json option" | Rejected js_error

datatype log_arg = NoArg | ObjArg json | ErrArg js_error

text \<open>
  The module's variables and what the environment holds for it: the sockets by number,
  the timers that are set and neither fired nor cleared (by call number), every call of
  a promise's \<^verbatim>\<open>resolve\<close> or \<^verbatim>\<open>reject\<close> (oldest first; the first one for a call
  settles its promise, a later one would be ignored by the promise), and the lines
  written with \<^verbatim>\<open>console.error\<close>.
\<close>

record relay =
  AUTH_TOKEN :: string
  extensionSocket :: "nat option"
  pendingRequests :: "string \<rightharpoonup> continuation"
  connections :: "nat \<rightharpoonup> connection"
  nextConnection :: nat
  timers :: "nat \<rightharpoonup> timer"
  nextCall :: nat
  settled :: "(nat \<times> outcome) list"
  console :: "(string \<times> log_arg) list"

definition initial :: "string \<Rightarrow> relay" where
  "initial tok =
     \<lparr> AUTH_TOKEN = tok, extensionSocket = None, pendingRequests = Map.empty,
       connections = Map.empty, nextConnection = 0, timers = Map.empty, nextCall = 0,
       settled = [], console = [] \<rparr>"

section \<open>What the handlers do to the environment\<close>

definition console_error :: "string \<Rightarrow> log_arg \<Rightarrow> relay \<Rightarrow> relay" where
  "console_error line arg s = s\<lparr>console := console s @ [(line, arg)]\<rparr>"

text \<open>\<^verbatim>\<open>ws.send(JSON.stringify(payload))\<close> on socket \<open>c\<close>: the call is recorded.\<close>

definition ws_send :: "nat \<Rightarrow> json \<Rightarrow> relay \<Rightarrow> relay" where
  "ws_send c payload s =
     (case connections s c of
        None \<Rightarrow> s
      | Some conn \<Rightarrow>
          s\<lparr>connections := (connections s)(c \<mapsto> conn\<lparr>sent := sent conn @ [payload]\<rparr>)\<rparr>)"

text \<open>\<^verbatim>\<open>ws.close()\<close>: a socket that is not closed yet starts its closing handshake.\<close>

definition ws_close :: "nat \<Rightarrow> relay \<Rightarrow> relay" where
  "ws_close c s =
     (case connections s c of
        None \<Rightarrow> s
      | Some conn \<Rightarrow>
          s\<lparr>connections := (connections s)(c \<mapsto>
              conn\<lparr>readyState := (if readyState conn = CLOSED then CLOSED else CLOSING)\<rparr>)\<rparr>)"

definition settle :: "nat \<Rightarrow> outcome \<Rightarrow> relay \<Rightarrow> relay" where
  "settle n out s = s\<lparr>settled := settled s @ [(n, out)]\<rparr>"

definition clearTimeout :: "nat \<Rightarrow> relay \<Rightarrow> relay" where
  "clearTimeout n s = s\<lparr>timers := (timers s)(n := None)\<rparr>"

text \<open>\<^verbatim>\<open>pending.resolve(data)\<close> and \<^verbatim>\<open>pending.reject(error)\<close> for a stored pair.\<close>

fun pending_resolve :: "continuation \<Rightarrow> json option \<Rightarrow> relay \<Rightarrow> relay" where
  "pending_resolve (Raw n) d s = settle n (Resolved d) s"
| "pending_resolve (Wrapped n) d s = settle n (Resolved d) (clearTimeout n s)"

fun pending_reject :: "continuation \<Rightarrow> js_error \<Rightarrow> relay \<Rightarrow> relay" where
  "pending_reject (Raw n) e s = settle n (Rejected e) s"
| "pending_reject (Wrapped n) e s = settle n (Rejected e) (clearTimeout n s)"

definition is_authenticated :: "nat \<Rightarrow> relay \<Rightarrow> bool" where
  "is_authenticated c s =
     (case connections s c of None \<Rightarrow> False | Some conn \<Rightarrow> authenticated conn)"

definition set_authenticated :: "nat \<Rightarrow> relay \<Rightarrow> relay" where
  "set_authenticated c s =
     (case connections s c of
        None \<Rightarrow> s
      | Some conn \<Rightarrow> s\<lparr>connections := (connections s)(c \<mapsto> conn\<lparr>authenticated := True\<rparr>)\<rparr>)"

section \<open>The message handler (lines 48 to 100)\<close>

definition auth_response :: "bool \<Rightarrow> string \<Rightarrow> json" where
  "auth_response ok text =
     JObj [(''type'', JStr ''auth_response''), (''success'', JBool ok), (''message'', JStr text)]"

definition not_authenticated_notice :: json where
  "not_authenticated_notice =
     JObj [(''type'', JStr ''error''), (''message'', JStr ''Not authenticated'')]"

text \<open>
  The body of a \<^verbatim>\<open>try\<close> returns \<open>Inr\<close> with the state it leaves, or \<open>Inl\<close> with the
  exception thrown and the state at the throw.
\<close>

type_synonym attempt = "(js_error \<times> relay) + relay"

text \<open>Lines 54 to 74, for a message whose type is "auth".\<close>

definition handle_auth :: "nat \<Rightarrow> json \<Rightarrow> relay \<Rightarrow> attempt" where
  "handle_auth c message s =
     (case get_prop message ''token'' of
        Inl e \<Rightarrow> Inl (e, s)
      | Inr tok \<Rightarrow>
          if tok = Some (JStr (AUTH_TOKEN s)) then
            Inr (console_error ''Extension authenticated successfully'' NoArg
                  (ws_send c (auth_response True ''Authentication successful'')
                    ((set_authenticated c s)\<lparr>extensionSocket := Some c\<rparr>)))
          else
            Inr (ws_close c
                  (console_error ''Authentication failed: invalid token'' NoArg
                    (ws_send c (auth_response False ''Invalid authentication token'') s))))"

text \<open>
  The keys of \<^verbatim>\<open>pendingRequests\<close> are strings, and a \<^verbatim>\<open>Map\<close> compares keys without
  conversion: only a string can find an entry.
\<close>

fun table_key :: "json option \<Rightarrow> string option" where
  "table_key (Some (JStr k)) = Some k"
| "table_key v = None"

definition table_get :: "relay \<Rightarrow> json option \<Rightarrow> continuation option" where
  "table_get s v = (case table_key v of None \<Rightarrow> None | Some k \<Rightarrow> pendingRequests s k)"

definition table_delete :: "json option \<Rightarrow> relay \<Rightarrow> relay" where
  "table_delete v s =
     (case table_key v of
        None \<Rightarrow> s
      | Some k \<Rightarrow> s\<lparr>pendingRequests := (pendingRequests s)(k := None)\<rparr>)"

text \<open>\<^verbatim>\<open>x || d\<close> for a parsed value \<open>x\<close>.\<close>

definition or_else :: "json option \<Rightarrow> json \<Rightarrow> json" where
  "or_else x d = (case x of None \<Rightarrow> d | Some v \<Rightarrow> if truthy x then v else d)"

text \<open>
  \<^verbatim>\<open>new Error(x)\<close> converts \<open>x\<close> to a string, and the conversion can throw. A parsed
  object is converted by the \<^verbatim>\<open>toString\<close> it inherits unless it has a member of that
  name: no parsed value is a function, so with such a member the conversion finds nothing
  to call and throws a \<^verbatim>\<open>TypeError\<close>. An array converts each element that is not
  \<^verbatim>\<open>null\<close> and joins the texts, so it throws when an element does. Strings, numbers
  and booleans always convert.
\<close>

fun toString_throws :: "json \<Rightarrow> bool" where
  "toString_throws (JObj kvs) = list_ex (\<lambda>kv. fst kv = ''toString'') kvs"
| "toString_throws (JArr xs) = list_ex toString_throws xs"
| "toString_throws JNull = False"
| "toString_throws (JBool b) = False"
| "toString_throws (JNum x) = False"
| "toString_throws (JStr s) = False"

text \<open>
  Lines 86 to 96, for a message whose type is "response". In line 92 the error is built
  before \<^verbatim>\<open>pending.reject\<close> is called: when building it throws, neither the call nor
  the \<^verbatim>\<open>delete\<close> of line 94 happens.
\<close>

definition handle_response :: "json \<Rightarrow> relay \<Rightarrow> attempt" where
  "handle_response message s =
     (case get_prop message ''requestId'' of
        Inl e \<Rightarrow> Inl (e, s)
      | Inr rid \<Rightarrow>
          if \<not> truthy rid then Inr s
          else
            (case table_get s rid of
               None \<Rightarrow> Inr s
             | Some pending \<Rightarrow>
                 (case get_prop message ''success'' of
                    Inl e \<Rightarrow> Inl (e, s)
                  | Inr ok \<Rightarrow>
                      if truthy ok then
                        (case get_prop message ''data'' of
                           Inl e \<Rightarrow> Inl (e, s)
                         | Inr d \<Rightarrow> Inr (table_delete rid (pending_resolve pending d s)))
                      else
                        (case get_prop message ''error'' of
                           Inl e \<Rightarrow> Inl (e, s)
                         | Inr er \<Rightarrow>
                             (let arg = or_else er (JStr ''Unknown error'')
                              in if toString_throws arg then Inl (TypeError, s)
                                 else Inr (table_delete rid
                                            (pending_reject pending (NewError arg) s)))))))"

text \<open>
  The \<^verbatim>\<open>try\<close> block of lines 49 to 96 on socket \<open>c\<close>. \<open>parsed\<close> is the outcome of
  \<^verbatim>\<open>JSON.parse(data.toString())\<close>: \<open>None\<close> when it throws.
\<close>

definition message_try :: "nat \<Rightarrow> json option \<Rightarrow> relay \<Rightarrow> attempt" where
  "message_try c parsed s =
     (case parsed of
        None \<Rightarrow> Inl (SyntaxError, s)
      | Some message \<Rightarrow>
          (let s1 = console_error ''Received from extension:'' (ObjArg message) s
           in case get_prop message ''type'' of
                Inl e \<Rightarrow> Inl (e, s1)
              | Inr ty \<Rightarrow>
                  if ty = Some (JStr ''auth'') then handle_auth c message s1
                  else if \<not> is_authenticated c s1 then
                    Inr (ws_send c not_authenticated_notice
                          (console_error ''Rejecting message from unauthenticated connection''
                             NoArg s1))
                  else if ty = Some (JStr ''response'') then handle_response message s1
                  else Inr s1))"

text \<open>The handler with its \<^verbatim>\<open>catch\<close> (lines 97 to 99), which takes every exception.\<close>

definition on_message :: "nat \<Rightarrow> json option \<Rightarrow> relay \<Rightarrow> relay" where
  "on_message c parsed s =
     (case message_try c parsed s of
        Inl (e, s') \<Rightarrow> console_error ''Error parsing message from extension:'' (ErrArg e) s'
      | Inr s' \<Rightarrow> s')"

section \<open>Connection, close and error handlers (lines 44 to 47 and 102 to 109)\<close>

definition on_connection :: "relay \<Rightarrow> relay" where
  "on_connection s =
     console_error ''Extension attempting to connect...'' NoArg
       (s\<lparr>connections := (connections s)(nextConnection s \<mapsto>
             \<lparr>authenticated = False, readyState = OPEN, sent = []\<rparr>),
          nextConnection := Suc (nextConnection s)\<rparr>)"

text \<open>Lines 102 to 105: the handler does not look at which socket closed.\<close>

definition on_close :: "nat \<Rightarrow> relay \<Rightarrow> relay" where
  "on_close c s = (console_error ''Extension disconnected'' NoArg s)\<lparr>extensionSocket := None\<rparr>"

definition on_error :: "nat \<Rightarrow> relay \<Rightarrow> relay" where
  "on_error c s = console_error ''WebSocket error:'' NoArg s"

section \<open>Dispatch (lines 113 to 160)\<close>

text \<open>
  Line 124: \<^verbatim>\<open>`${Date.now()}-${Math.random()}`\<close>. \<open>now\<close> is the clock in milliseconds
  and \<open>rnd\<close> the text the template gives the random number.
\<close>

definition requestId :: "nat \<Rightarrow> string \<Rightarrow> string" where
  "requestId now rnd = show_nat now @ ''-'' @ rnd"

text \<open>Lines 125 to 129; \<^verbatim>\<open>JSON.stringify\<close> leaves out a member that is undefined.\<close>

definition command_message :: "string \<Rightarrow> string \<Rightarrow> json option \<Rightarrow> json" where
  "command_message rid command params =
     JObj ([(''id'', JStr rid), (''command'', JStr command)] @
           (case params of None \<Rightarrow> [] | Some p \<Rightarrow> [(''params'', p)]))"

text \<open>Line 119 is the negation of this test.\<close>

definition channel_open :: "relay \<Rightarrow> bool" where
  "channel_open s =
     (case extensionSocket s of
        None \<Rightarrow> False
      | Some c \<Rightarrow>
          (case connections s c of
             None \<Rightarrow> False
           | Some conn \<Rightarrow> readyState conn = OPEN))"

definition timeout_error :: "nat \<Rightarrow> js_error" where
  "timeout_error ms = NewError (JStr (''Request timeout after '' @ show_nat ms @ ''ms''))"

text \<open>
  One call, numbered \<open>nextCall s\<close>, with the optional third argument (default 30000), the
  clock and the random text it reads.
\<close>

definition sendCommandToExtension ::
  "string \<Rightarrow> json option \<Rightarrow> nat option \<Rightarrow> nat \<Rightarrow> string \<Rightarrow> relay \<Rightarrow> relay" where
  "sendCommandToExtension command params timeout_arg now rnd s =
     (let timeout = (case timeout_arg of None \<Rightarrow> 30000 | Some ms \<Rightarrow> ms);
          n = nextCall s;
          s0 = s\<lparr>nextCall := Suc n\<rparr>
      in if \<not> channel_open s0 then
           settle n (Rejected (NewError (JStr ''Extension not connected''))) s0
         else
           (let rid = requestId now rnd;
                s1 = s0\<lparr>pendingRequests := (pendingRequests s0)(rid \<mapsto> Raw n)\<rparr>;
                s2 = s1\<lparr>timers := (timers s1)(n \<mapsto> \<lparr>t_requestId = rid, t_timeout = timeout\<rparr>)\<rparr>;
                s3 = s2\<lparr>pendingRequests := (pendingRequests s2)(rid \<mapsto> Wrapped n)\<rparr>
            in case extensionSocket s3 of
                 None \<Rightarrow> s3
               | Some c \<Rightarrow> ws_send c (command_message rid command params) s3))"

text \<open>The callback of lines 135 to 140, run when the timer of call \<open>n\<close> fires.\<close>

definition timeout_callback :: "nat \<Rightarrow> timer \<Rightarrow> relay \<Rightarrow> relay" where
  "timeout_callback n t s =
     (if pendingRequests s (t_requestId t) \<noteq> None then
        settle n (Rejected (timeout_error (t_timeout t)))
          (s\<lparr>pendingRequests := (pendingRequests s)(t_requestId t := None)\<rparr>)
      else s)"

section \<open>Events of the event loop\<close>

text \<open>
  The relay is single-threaded: one event at a time runs its handler to the end. A
  message or a close event comes only from a socket that exists and has not closed; a
  timer fires only while it is set, and only once.
\<close>

datatype event =
    Connect
  | Message nat "json option"
  | Close nat
  | SocketError nat
  | Dispatch string "json option" "nat option" nat string
  | Timeout nat

definition live :: "nat \<Rightarrow> relay \<Rightarrow> bool" where
  "live c s =
     (case connections s c of None \<Rightarrow> False | Some conn \<Rightarrow> readyState conn \<noteq> CLOSED)"

definition mark_closed :: "nat \<Rightarrow> relay \<Rightarrow> relay" where
  "mark_closed c s =
     (case connections s c of
        None \<Rightarrow> s
      | Some conn \<Rightarrow> s\<lparr>connections := (connections s)(c \<mapsto> conn\<lparr>readyState := CLOSED\<rparr>)\<rparr>)"

fun step :: "relay \<Rightarrow> event \<Rightarrow> relay" where
  "step s Connect = on_connection s"
| "step s (Message c parsed) = (if live c s then on_message c parsed s else s)"
| "step s (Close c) = (if live c s then on_close c (mark_closed c s) else s)"
| "step s (SocketError c) = (if live c s then on_error c s else s)"
| "step s (Dispatch command params timeout_arg now rnd) =
     sendCommandToExtension command params timeout_arg now rnd s"
| "step s (Timeout n) =
     (case timers s n of
        None \<Rightarrow> s
      | Some t \<Rightarrow> timeout_callback n t (clearTimeout n s))"

definition run :: "relay \<Rightarrow> event list \<Rightarrow> relay" where
  "run s evs = foldl step s evs"

section \<open>Wire envelopes, scenarios and the vocabulary of the proofs\<close>

text \<open>
  The invariant of the correlation state: every entry has a non-empty id and is the
  wrapped pair of a call whose timer is set and was set for this id; a call whose timer is
  set has a number below the next one and has not been settled; every settled call has a
  number below the next one; and no call was settled twice.
\<close>

definition wf :: "relay \<Rightarrow> bool" where
  "wf s \<longleftrightarrow>
     (\<forall>rid k. pendingRequests s rid = Some k \<longrightarrow>
        rid \<noteq> [] \<and> (\<exists>n t. k = Wrapped n \<and> timers s n = Some t \<and> t_requestId t = rid)) \<and>
     (\<forall>n t. timers s n = Some t \<longrightarrow> n < nextCall s \<and> n \<notin> fst ` set (settled s)) \<and>
     (\<forall>x \<in> set (settled s). fst x < nextCall s) \<and>
     distinct (map fst (settled s))"

text \<open>Two states with the same table, timers, settlements and call counter.\<close>

definition same_core :: "relay \<Rightarrow> relay \<Rightarrow> bool" where
  "same_core s' s \<longleftrightarrow>
     pendingRequests s' = pendingRequests s \<and> timers s' = timers s \<and>
     settled s' = settled s \<and> nextCall s' = nextCall s"

text \<open>
  \<^verbatim>\<open>pending.resolve\<close> or \<^verbatim>\<open>pending.reject\<close> with a given outcome, for the proofs
  that do not care which of the two it is.
\<close>

definition deliver :: "continuation \<Rightarrow> outcome \<Rightarrow> relay \<Rightarrow> relay" where
  "deliver k out s =
     (case k of Raw n \<Rightarrow> settle n out s | Wrapped n \<Rightarrow> settle n out (clearTimeout n s))"

text \<open>The outcome lines 89 to 93 pass on for a message that can be read.\<close>

definition reply_outcome :: "json \<Rightarrow> outcome" where
  "reply_outcome message =
     (if truthy (case get_prop message ''success'' of Inr v \<Rightarrow> v | Inl e \<Rightarrow> None)
      then Resolved (case get_prop message ''data'' of Inr v \<Rightarrow> v | Inl e \<Rightarrow> None)
      else Rejected (NewError (or_else (case get_prop message ''error'' of Inr v \<Rightarrow> v | Inl e \<Rightarrow> None)
                                 (JStr ''Unknown error''))))"

text \<open>The state after lines 89 to 94 found the entry \<open>k\<close> under \<open>rid\<close>.\<close>

definition after_reply :: "string \<Rightarrow> continuation \<Rightarrow> outcome \<Rightarrow> relay \<Rightarrow> relay" where
  "after_reply rid k out s =
     (deliver k out s)\<lparr>pendingRequests := (pendingRequests (deliver k out s))(rid := None)\<rparr>"

text \<open>The event is a message whose \<open>requestId\<close> member is the id \<open>rid\<close>.\<close>

definition carries :: "string \<Rightarrow> event \<Rightarrow> bool" where
  "carries rid e =
     (case e of
        Message c parsed \<Rightarrow>
          (case parsed of
             None \<Rightarrow> False
           | Some m \<Rightarrow> get_prop m ''requestId'' = Inr (Some (JStr rid)))
      | _ \<Rightarrow> False)"

text \<open>
  The entry under \<open>rid\<close> is the wrapped pair of call \<open>n\<close>, and no other call's timer was
  set for \<open>rid\<close>.
\<close>

definition owns :: "string \<Rightarrow> nat \<Rightarrow> relay \<Rightarrow> bool" where
  "owns rid n s \<longleftrightarrow>
     pendingRequests s rid = Some (Wrapped n) \<and>
     (\<forall>m t. timers s m = Some t \<longrightarrow> t_requestId t = rid \<longrightarrow> m = n)"

text \<open>The event is a dispatch that computes the id \<open>rid\<close>.\<close>

definition issues :: "string \<Rightarrow> event \<Rightarrow> bool" where
  "issues rid e =
     (case e of Dispatch command params timeout_arg now rnd \<Rightarrow> requestId now rnd = rid
      | _ \<Rightarrow> False)"

text \<open>Every socket in use has a number below the next one to be handed out.\<close>

definition fresh_sockets :: "relay \<Rightarrow> bool" where
  "fresh_sockets s \<longleftrightarrow> (\<forall>c conn. connections s c = Some conn \<longrightarrow> c < nextConnection s)"

text \<open>
  From \<open>s\<close> to \<open>s'\<close> the set of sockets and the secret stay and no \<^verbatim>\<open>authenticated\<close>
  variable goes back to false.
\<close>

definition grows :: "relay \<Rightarrow> relay \<Rightarrow> bool" where
  "grows s s' \<longleftrightarrow>
     nextConnection s' = nextConnection s \<and> AUTH_TOKEN s' = AUTH_TOKEN s \<and>
     (\<forall>c. case connections s c of
            None \<Rightarrow> connections s' c = None
          | Some conn \<Rightarrow>
              (\<exists>conn'. connections s' c = Some conn' \<and>
                 (authenticated conn \<longrightarrow> authenticated conn')))"

text \<open>The envelopes a peer sends (the extension, and the README's protocol section).\<close>

definition auth_message :: "string \<Rightarrow> json" where
  "auth_message t = JObj [(''type'', JStr ''auth''), (''token'', JStr t)]"

definition success_reply :: "string \<Rightarrow> json \<Rightarrow> json" where
  "success_reply rid d =
     JObj [(''type'', JStr ''response''), (''requestId'', JStr rid), (''success'', JBool True),
           (''data'', d)]"

definition failure_reply :: "string \<Rightarrow> string \<Rightarrow> json" where
  "failure_reply rid e =
     JObj [(''type'', JStr ''response''), (''requestId'', JStr rid), (''success'', JBool False),
           (''error'', JStr e)]"

text \<open>
  Scenarios: a peer connects and presents the secret "abc123"; then two calls go out,
  the first with the default timeout.
\<close>

definition peer_authenticated :: "event list" where
  "peer_authenticated = [Connect, Message 0 (Some (auth_message ''abc123''))]"

definition two_outstanding :: "event list" where
  "two_outstanding =
     peer_authenticated @
     [Dispatch ''ping'' (Some (JObj [])) None 5 ''0.5'',
      Dispatch ''listTabs'' (Some (JObj [])) (Some 1000) 6 ''0.25'']"

section \<open>Properties\<close>

subsection \<open>Decimal text and request ids\<close>

lemma digit_char_inj: "a < 10 \<Longrightarrow> b < 10 \<Longrightarrow> digit_char a = digit_char b \<Longrightarrow> a = b"
proof -
  assume a: "a < 10" and b: "b < 10" and e: "digit_char a = digit_char b"
  from a have "a \<in> {0,1,2,3,4,5,6,7,8,9}" by auto
  moreover from b have "b \<in> {0,1,2,3,4,5,6,7,8,9}" by auto
  ultimately show ?thesis using e by (auto simp: digit_char_def)
qed

lemma digit_char_not_hyphen: "d < 10 \<Longrightarrow> digit_char d \<noteq> CHR ''-''"
proof -
  assume "d < 10"
  then have "d \<in> {0,1,2,3,4,5,6,7,8,9}" by auto
  then show ?thesis by (auto simp: digit_char_def)
qed

lemma show_nat_not_Nil: "show_nat n \<noteq> []"
  by (subst show_nat.simps) simp

lemma show_nat_no_hyphen: "CHR ''-'' \<notin> set (show_nat n)"
proof (induction n rule: show_nat.induct)
  case (1 n)
  show ?case
  proof (cases "n < 10")
    case True
    then show ?thesis using digit_char_not_hyphen [of n]
      by (subst show_nat.simps) auto
  next
    case False
    then have "CHR ''-'' \<notin> set (show_nat (n div 10))" using 1 by simp
    moreover have "digit_char (n mod 10) \<noteq> CHR ''-''"
      by (rule digit_char_not_hyphen) simp
    ultimately show ?thesis using False
      by (subst show_nat.simps) auto
  qed
qed

lemma show_nat_inj: "show_nat n = show_nat m \<Longrightarrow> n = m"
proof (induction n arbitrary: m rule: show_nat.induct)
  case (1 n)
  show ?case
  proof (cases "n < 10")
    case n: True
    show ?thesis
    proof (cases "m < 10")
      case True
      with n 1(2) show ?thesis
        by (simp add: show_nat.simps [of n] show_nat.simps [of m] digit_char_inj)
    next
      case False
      with n 1(2) show ?thesis
        using show_nat_not_Nil [of "m div 10"]
        by (simp add: show_nat.simps [of n] show_nat.simps [of m])
    qed
  next
    case n: False
    show ?thesis
    proof (cases "m < 10")
      case True
      with n 1(2) show ?thesis
        using show_nat_not_Nil [of "n div 10"]
        by (simp add: show_nat.simps [of n] show_nat.simps [of m])
    next
      case False
      with n 1(2) have e: "show_nat (n div 10) = show_nat (m div 10)"
        and d: "digit_char (n mod 10) = digit_char (m mod 10)"
        by (simp_all add: show_nat.simps [of n] show_nat.simps [of m])
      from 1(1) [OF n e] have "n div 10 = m div 10" .
      moreover from d have "n mod 10 = m mod 10"
        by (intro digit_char_inj) simp_all
      ultimately show ?thesis
        by (metis div_mult_mod_eq)
    qed
  qed
qed

lemma split_at_first:
  "c \<notin> set xs \<Longrightarrow> c \<notin> set xs' \<Longrightarrow> xs @ c # ys = xs' @ c # ys' \<Longrightarrow> xs = xs' \<and> ys = ys'"
proof (induction xs arbitrary: xs')
  case Nil
  then show ?case by (cases xs') auto
next
  case (Cons x xs)
  then show ?case by (cases xs') auto
qed

lemma requestId_inj: "requestId now rnd = requestId now' rnd' \<longleftrightarrow> now = now' \<and> rnd = rnd'"
proof
  assume "requestId now rnd = requestId now' rnd'"
  then have "show_nat now @ CHR ''-'' # rnd = show_nat now' @ CHR ''-'' # rnd'"
    by (simp add: requestId_def)
  from split_at_first [OF show_nat_no_hyphen show_nat_no_hyphen this]
  show "now = now' \<and> rnd = rnd'" by (auto dest: show_nat_inj)
qed auto

lemma requestId_not_Nil: "requestId now rnd \<noteq> []"
  by (simp add: requestId_def)

subsection \<open>The invariant of the correlation state\<close>

lemma same_core_refl [simp]: "same_core s s"
  by (simp add: same_core_def)

lemma same_core_trans: "same_core s'' s' \<Longrightarrow> same_core s' s \<Longrightarrow> same_core s'' s"
  by (simp add: same_core_def)

lemma wf_same_core: "same_core s' s \<Longrightarrow> wf s' = wf s"
  by (simp add: same_core_def wf_def)

lemma core_console_error [simp]: "same_core (console_error l a s') s = same_core s' s"
  by (simp add: same_core_def console_error_def)

lemma core_ws_send [simp]: "same_core (ws_send c p s') s = same_core s' s"
  by (simp add: same_core_def ws_send_def split: option.splits)

lemma core_ws_close [simp]: "same_core (ws_close c s') s = same_core s' s"
  by (simp add: same_core_def ws_close_def split: option.splits)

lemma core_set_authenticated [simp]: "same_core (set_authenticated c s') s = same_core s' s"
  by (simp add: same_core_def set_authenticated_def split: option.splits)

lemma core_mark_closed [simp]: "same_core (mark_closed c s') s = same_core s' s"
  by (simp add: same_core_def mark_closed_def split: option.splits)

lemma core_extensionSocket [simp]: "same_core (s'\<lparr>extensionSocket := x\<rparr>) s = same_core s' s"
  by (simp add: same_core_def)

lemma core_on_connection [simp]: "same_core (on_connection s') s = same_core s' s"
  by (simp add: same_core_def on_connection_def console_error_def)

lemma core_on_close [simp]: "same_core (on_close c s') s = same_core s' s"
  by (simp add: same_core_def on_close_def console_error_def)

lemma core_on_error [simp]: "same_core (on_error c s') s = same_core s' s"
  by (simp add: same_core_def on_error_def console_error_def)

lemma core_handle_auth: "handle_auth c m s = Inr s' \<Longrightarrow> same_core s' s"
  by (auto simp: handle_auth_def split: sum.splits if_splits)

lemma handle_auth_Inl: "handle_auth c m s = Inl (e, s') \<Longrightarrow> same_core s' s"
  by (auto simp: handle_auth_def split: sum.splits if_splits)

lemma pending_resolve_deliver: "pending_resolve k d s = deliver k (Resolved d) s"
  by (cases k) (simp_all add: deliver_def)

lemma pending_reject_deliver: "pending_reject k e s = deliver k (Rejected e) s"
  by (cases k) (simp_all add: deliver_def)

lemma get_prop_Inr: "get_prop m k = Inr v \<Longrightarrow> \<exists>w. get_prop m k' = Inr w"
  by (cases m) auto

lemma table_key_Some: "table_key v = Some k \<longleftrightarrow> v = Some (JStr k)"
  by (cases v rule: table_key.cases) auto

lemma handle_response_cases:
  assumes "get_prop message ''type'' = Inr ty"
  shows "handle_response message s = Inr s \<or>
     handle_response message s = Inl (TypeError, s) \<or>
     (\<exists>rid k. get_prop message ''requestId'' = Inr (Some (JStr rid)) \<and> rid \<noteq> [] \<and>
        pendingRequests s rid = Some k \<and>
        handle_response message s =
          Inr ((deliver k (reply_outcome message) s)
                 \<lparr>pendingRequests := (pendingRequests (deliver k (reply_outcome message) s))(rid := None)\<rparr>))"
proof -
  obtain rid where r: "get_prop message ''requestId'' = Inr rid"
    using get_prop_Inr [OF assms] by blast
  obtain ok where o: "get_prop message ''success'' = Inr ok"
    using get_prop_Inr [OF assms] by blast
  obtain d where d: "get_prop message ''data'' = Inr d"
    using get_prop_Inr [OF assms] by blast
  obtain er where e: "get_prop message ''error'' = Inr er"
    using get_prop_Inr [OF assms] by blast
  show ?thesis
  proof (cases "truthy rid \<and> table_get s rid \<noteq> None")
    case False
    then show ?thesis by (auto simp: handle_response_def r)
  next
    case True
    then obtain k where k: "table_get s rid = Some k" by auto
    then obtain key where key: "rid = Some (JStr key)" "pendingRequests s key = Some k"
      by (auto simp: table_get_def table_key_Some split: option.splits)
    from True key have ne: "key \<noteq> []" by simp
    show ?thesis
    proof (cases "\<not> truthy ok \<and> toString_throws (or_else er (JStr ''Unknown error''))")
      case thrown: True
      then have "handle_response message s = Inl (TypeError, s)"
        using True k by (simp add: handle_response_def r o e Let_def)
      then show ?thesis by blast
    next
      case False
      then have "handle_response message s =
          Inr ((deliver k (reply_outcome message) s)
                 \<lparr>pendingRequests := (pendingRequests (deliver k (reply_outcome message) s))(key := None)\<rparr>)"
        using True k key
        by (auto simp: handle_response_def r o d e reply_outcome_def table_delete_def
            pending_resolve_deliver pending_reject_deliver Let_def)
      with key ne r show ?thesis by blast
    qed
  qed
qed

lemma after_reply_console:
  "same_core (after_reply rid k out (console_error l a s)) (after_reply rid k out s)"
  by (cases k)
     (simp_all add: after_reply_def deliver_def same_core_def console_error_def settle_def
       clearTimeout_def)

lemma on_message_cases_full:
  "same_core (on_message c parsed s) s \<or>
   (\<exists>message rid k. parsed = Some message \<and> rid \<noteq> [] \<and> pendingRequests s rid = Some k \<and>
      get_prop message ''requestId'' = Inr (Some (JStr rid)) \<and>
      is_authenticated c s \<and> get_prop message ''type'' = Inr (Some (JStr ''response'')) \<and>
      same_core (on_message c parsed s) (after_reply rid k (reply_outcome message) s))"
proof (cases parsed)
  case None
  then show ?thesis by (simp add: on_message_def message_try_def)
next
  case (Some message)
  define s1 where "s1 = console_error ''Received from extension:'' (ObjArg message) s"
  have s1: "same_core s1 s" by (simp add: s1_def)
  show ?thesis
  proof (cases "get_prop message ''type''")
    case (Inl e)
    then show ?thesis using Some by (simp add: on_message_def message_try_def)
  next
    case (Inr ty)
    show ?thesis
    proof (cases "ty = Some (JStr ''auth'')")
      case True
      have om: "on_message c parsed s =
          (case handle_auth c message s1 of
             Inl (e, s') \<Rightarrow> console_error ''Error parsing message from extension:'' (ErrArg e) s'
           | Inr s' \<Rightarrow> s')"
        using Some Inr True by (simp add: on_message_def message_try_def s1_def [symmetric])
      have "same_core (on_message c parsed s) s"
      proof (cases "handle_auth c message s1")
        case (Inl a)
        obtain e s' where a: "a = (e, s')" by (cases a)
        with Inl have "same_core s' s1" using handle_auth_Inl by blast
        with s1 have "same_core s' s" by (rule same_core_trans [rotated])
        with Inl a show ?thesis by (simp add: om)
      next
        case r: (Inr s')
        from core_handle_auth [OF r] s1 have "same_core s' s" by (rule same_core_trans)
        with r show ?thesis by (simp add: om)
      qed
      then show ?thesis ..
    next
      case na: False
      show ?thesis
      proof (cases "is_authenticated c s1 \<and> ty = Some (JStr ''response'')")
        case False
        then have "same_core (on_message c parsed s) s" using Some Inr na
          by (auto simp: on_message_def message_try_def s1_def [symmetric] Let_def s1)
        then show ?thesis ..
      next
        case True
        then have om: "on_message c parsed s =
            (case handle_response message s1 of
               Inl (e, s') \<Rightarrow> console_error ''Error parsing message from extension:'' (ErrArg e) s'
             | Inr s' \<Rightarrow> s')"
          using Some Inr na by (simp add: on_message_def message_try_def s1_def [symmetric])
        from handle_response_cases [OF Inr, of s1]
        show ?thesis
        proof (elim disjE)
          assume "handle_response message s1 = Inr s1"
          then show ?thesis using om s1 by simp
        next
          assume "handle_response message s1 = Inl (TypeError, s1)"
          then show ?thesis using om s1 by simp
        next
          assume "\<exists>rid k. get_prop message ''requestId'' = Inr (Some (JStr rid)) \<and> rid \<noteq> [] \<and>
            pendingRequests s1 rid = Some k \<and>
            handle_response message s1 =
              Inr ((deliver k (reply_outcome message) s1)
                 \<lparr>pendingRequests := (pendingRequests (deliver k (reply_outcome message) s1))(rid := None)\<rparr>)"
          then obtain rid k where h: "get_prop message ''requestId'' = Inr (Some (JStr rid))"
            "rid \<noteq> []" "pendingRequests s1 rid = Some k"
            "handle_response message s1 = Inr (after_reply rid k (reply_outcome message) s1)"
            by (auto simp: after_reply_def)
          have "same_core (on_message c parsed s) (after_reply rid k (reply_outcome message) s)"
            using om h(4) after_reply_console [of rid k "reply_outcome message" _ _ s]
            by (simp add: s1_def)
          moreover have "pendingRequests s rid = Some k"
            using h(3) by (simp add: s1_def console_error_def)
          moreover have "is_authenticated c s"
            using True by (simp add: s1_def is_authenticated_def console_error_def)
          ultimately show ?thesis using Some h(1,2) True Inr by blast
        qed
      qed
    qed
  qed
qed

lemma on_message_cases:
  "same_core (on_message c parsed s) s \<or>
   (\<exists>message rid k. parsed = Some message \<and> rid \<noteq> [] \<and> pendingRequests s rid = Some k \<and>
      get_prop message ''requestId'' = Inr (Some (JStr rid)) \<and>
      same_core (on_message c parsed s) (after_reply rid k (reply_outcome message) s))"
  using on_message_cases_full [of c parsed s] by blast

lemma wf_entry:
  "wf s \<Longrightarrow> pendingRequests s rid = Some k \<Longrightarrow>
     rid \<noteq> [] \<and> (\<exists>n t. k = Wrapped n \<and> timers s n = Some t \<and> t_requestId t = rid)"
  unfolding wf_def by blast

lemma wf_timer:
  "wf s \<Longrightarrow> timers s n = Some t \<Longrightarrow> n < nextCall s \<and> n \<notin> fst ` set (settled s)"
  unfolding wf_def by blast

lemma wf_settled: "wf s \<Longrightarrow> x \<in> set (settled s) \<Longrightarrow> fst x < nextCall s"
  unfolding wf_def by blast

lemma wf_distinct: "wf s \<Longrightarrow> distinct (map fst (settled s))"
  unfolding wf_def by blast

lemma wf_initial: "wf (initial tok)"
  by (simp add: wf_def initial_def)

lemma wf_after_reply:
  assumes "wf s" "pendingRequests s rid = Some k"
  shows "wf (after_reply rid k out s)"
proof -
  from wf_entry [OF assms] obtain n t
    where k: "k = Wrapped n" and t: "timers s n = Some t" "t_requestId t = rid"
    by blast
  from wf_timer [OF assms(1) t(1)] have n: "n < nextCall s" "n \<notin> fst ` set (settled s)"
    by simp_all
  have eq: "pendingRequests (after_reply rid k out s) = (pendingRequests s)(rid := None)"
    "timers (after_reply rid k out s) = (timers s)(n := None)"
    "settled (after_reply rid k out s) = settled s @ [(n, out)]"
    "nextCall (after_reply rid k out s) = nextCall s"
    by (simp_all add: after_reply_def deliver_def k settle_def clearTimeout_def)
  show ?thesis
    unfolding wf_def eq
  proof (intro conjI allI impI ballI)
    fix r k' assume a: "((pendingRequests s)(rid := None)) r = Some k'"
    then have r: "r \<noteq> rid" "pendingRequests s r = Some k'" by (auto split: if_splits)
    from wf_entry [OF assms(1) r(2)] show "r \<noteq> []" by simp
    from wf_entry [OF assms(1) r(2)] obtain n' t'
      where k': "k' = Wrapped n'" "timers s n' = Some t'" "t_requestId t' = r"
      by blast
    with r t have "n' \<noteq> n" by auto
    with k' show "\<exists>m u. k' = Wrapped m \<and> ((timers s)(n := None)) m = Some u \<and> t_requestId u = r"
      by (intro exI [of _ n'] exI [of _ t']) simp
  next
    fix m t' assume "((timers s)(n := None)) m = Some t'"
    then have m: "m \<noteq> n" "timers s m = Some t'" by (auto split: if_splits)
    from wf_timer [OF assms(1) m(2)] show "m < nextCall s" by simp
    from wf_timer [OF assms(1) m(2)] m(1) show "m \<notin> fst ` set (settled s @ [(n, out)])" by auto
  next
    fix x assume "x \<in> set (settled s @ [(n, out)])"
    then have "x \<in> set (settled s) \<or> x = (n, out)" by auto
    then show "fst x < nextCall s"
      using wf_settled [OF assms(1), of x] n by auto
  next
    from wf_distinct [OF assms(1)] n show "distinct (map fst (settled s @ [(n, out)]))" by auto
  qed
qed

lemma wf_on_message: "wf s \<Longrightarrow> wf (on_message c parsed s)"
  using on_message_cases [of c parsed s] wf_after_reply wf_same_core by blast

lemma channel_open_nextCall [simp]: "channel_open (s\<lparr>nextCall := x\<rparr>) = channel_open s"
  by (simp add: channel_open_def split: option.splits)

lemma wfI:
  assumes "\<And>rid k. pendingRequests s rid = Some k \<Longrightarrow>
             rid \<noteq> [] \<and> (\<exists>n t. k = Wrapped n \<and> timers s n = Some t \<and> t_requestId t = rid)"
    and "\<And>n t. timers s n = Some t \<Longrightarrow> n < nextCall s \<and> n \<notin> fst ` set (settled s)"
    and "\<And>x. x \<in> set (settled s) \<Longrightarrow> fst x < nextCall s"
    and "distinct (map fst (settled s))"
  shows "wf s"
  unfolding wf_def using assms by blast

lemma dispatch_closed:
  "\<not> channel_open s \<Longrightarrow>
   sendCommandToExtension command params timeout_arg now rnd s =
     s\<lparr>nextCall := Suc (nextCall s),
       settled := settled s @ [(nextCall s, Rejected (NewError (JStr ''Extension not connected'')))]\<rparr>"
  by (simp add: sendCommandToExtension_def Let_def settle_def)

lemma dispatch_open:
  assumes "channel_open s"
  shows "\<exists>c conn. extensionSocket s = Some c \<and> connections s c = Some conn \<and>
     readyState conn = OPEN \<and>
     sendCommandToExtension command params timeout_arg now rnd s =
       s\<lparr>nextCall := Suc (nextCall s),
         pendingRequests := (pendingRequests s)(requestId now rnd \<mapsto> Wrapped (nextCall s)),
         timers := (timers s)(nextCall s \<mapsto>
            \<lparr>t_requestId = requestId now rnd,
              t_timeout = (case timeout_arg of None \<Rightarrow> 30000 | Some ms \<Rightarrow> ms)\<rparr>),
         connections := (connections s)(c \<mapsto>
            conn\<lparr>sent := sent conn @ [command_message (requestId now rnd) command params]\<rparr>)\<rparr>"
proof -
  from assms obtain c conn where c: "extensionSocket s = Some c" "connections s c = Some conn"
    "readyState conn = OPEN"
    by (auto simp: channel_open_def split: option.splits)
  with assms show ?thesis
    by (simp add: sendCommandToExtension_def Let_def ws_send_def)
qed

lemma wf_dispatch:
  assumes "wf s"
  shows "wf (sendCommandToExtension command params timeout_arg now rnd s)"
proof (cases "channel_open s")
  case False
  have fresh: "nextCall s \<notin> fst ` set (settled s)"
    using wf_settled [OF assms] by fastforce
  define s' where "s' = sendCommandToExtension command params timeout_arg now rnd s"
  have eq: "pendingRequests s' = pendingRequests s" "timers s' = timers s"
    "settled s' = settled s @ [(nextCall s, Rejected (NewError (JStr ''Extension not connected'')))]"
    "nextCall s' = Suc (nextCall s)"
    unfolding s'_def dispatch_closed [OF False] by simp_all
  have "wf s'"
  proof (rule wfI)
    fix rid k assume "pendingRequests s' rid = Some k"
    then have "pendingRequests s rid = Some k" by (simp add: eq)
    from wf_entry [OF assms this]
    show "rid \<noteq> [] \<and> (\<exists>n t. k = Wrapped n \<and> timers s' n = Some t \<and> t_requestId t = rid)"
      by (simp add: eq)
  next
    fix n t assume "timers s' n = Some t"
    then have "timers s n = Some t" by (simp add: eq)
    from wf_timer [OF assms this]
    show "n < nextCall s' \<and> n \<notin> fst ` set (settled s')" by (auto simp: eq)
  next
    fix x assume "x \<in> set (settled s')"
    then have "x \<in> set (settled s) \<or> fst x = nextCall s" by (auto simp: eq)
    then show "fst x < nextCall s'" using wf_settled [OF assms, of x] by (auto simp: eq)
  next
    show "distinct (map fst (settled s'))"
      using wf_distinct [OF assms] fresh by (simp add: eq)
  qed
  then show ?thesis by (simp add: s'_def)
next
  case True
  from dispatch_open [OF True, of command params timeout_arg now rnd]
  obtain s' where s': "sendCommandToExtension command params timeout_arg now rnd s = s'"
    and eq: "pendingRequests s' = (pendingRequests s)(requestId now rnd \<mapsto> Wrapped (nextCall s))"
      "timers s' = (timers s)(nextCall s \<mapsto>
            \<lparr>t_requestId = requestId now rnd,
              t_timeout = (case timeout_arg of None \<Rightarrow> 30000 | Some ms \<Rightarrow> ms)\<rparr>)"
      "settled s' = settled s" "nextCall s' = Suc (nextCall s)"
    by auto
  have fresh: "nextCall s \<notin> fst ` set (settled s)"
    using wf_settled [OF assms] by fastforce
  have "wf s'"
  proof (rule wfI)
    fix rid k assume a: "pendingRequests s' rid = Some k"
    show "rid \<noteq> [] \<and> (\<exists>n t. k = Wrapped n \<and> timers s' n = Some t \<and> t_requestId t = rid)"
    proof (cases "rid = requestId now rnd")
      case True
      with a have "k = Wrapped (nextCall s)" by (simp add: eq)
      with True show ?thesis
        by (intro conjI exI [of _ "nextCall s"]) (simp_all add: eq requestId_def)
    next
      case False
      with a have "pendingRequests s rid = Some k" by (simp add: eq)
      from wf_entry [OF assms this] obtain n t
        where k: "rid \<noteq> []" "k = Wrapped n" "timers s n = Some t" "t_requestId t = rid" by blast
      from wf_timer [OF assms k(3)] have "n \<noteq> nextCall s" by simp
      with k show ?thesis by (intro conjI exI [of _ n] exI [of _ t]) (simp_all add: eq)
    qed
  next
    fix n t assume a: "timers s' n = Some t"
    show "n < nextCall s' \<and> n \<notin> fst ` set (settled s')"
      using a wf_timer [OF assms, of n t] fresh by (cases "n = nextCall s") (simp_all add: eq)
  next
    fix x assume "x \<in> set (settled s')"
    then have "x \<in> set (settled s)" by (simp add: eq)
    from wf_settled [OF assms this] show "fst x < nextCall s'" by (simp add: eq)
  next
    show "distinct (map fst (settled s'))" using wf_distinct [OF assms] by (simp add: eq)
  qed
  then show ?thesis by (simp add: s')
qed

lemma timeout_step:
  assumes "timers s n = Some t"
  shows "step s (Timeout n) =
     (if pendingRequests s (t_requestId t) \<noteq> None then
        s\<lparr>timers := (timers s)(n := None),
          pendingRequests := (pendingRequests s)(t_requestId t := None),
          settled := settled s @ [(n, Rejected (timeout_error (t_timeout t)))]\<rparr>
      else s\<lparr>timers := (timers s)(n := None)\<rparr>)"
  using assms by (simp add: timeout_callback_def clearTimeout_def settle_def)

lemma wf_timeout:
  assumes "wf s"
  shows "wf (step s (Timeout n))"
proof (cases "timers s n")
  case None
  then show ?thesis using assms by simp
next
  case (Some t)
  from wf_timer [OF assms Some] have n: "n < nextCall s" "n \<notin> fst ` set (settled s)"
    by simp_all
  have entries: "rid \<noteq> [] \<and> (\<exists>m u. k = Wrapped m \<and> ((timers s)(n := None)) m = Some u \<and> t_requestId u = rid)"
    if "pendingRequests s rid = Some k" "rid \<noteq> t_requestId t" for rid k
  proof -
    from wf_entry [OF assms that(1)] obtain m u
      where k: "rid \<noteq> []" "k = Wrapped m" "timers s m = Some u" "t_requestId u = rid" by blast
    with that(2) Some have "m \<noteq> n" by auto
    with k show ?thesis by (intro conjI exI [of _ m] exI [of _ u]) simp_all
  qed
  have tm: "m < nextCall s \<and> m \<notin> fst ` set (settled s) \<and> m \<noteq> n"
    if "((timers s)(n := None)) m = Some u" for m u
    using that wf_timer [OF assms, of m u] by (cases "m = n") simp_all
  define s' where "s' = step s (Timeout n)"
  have eq: "timers s' = (timers s)(n := None)" "nextCall s' = nextCall s"
    "pendingRequests s' = (pendingRequests s)(t_requestId t := None)"
    "settled s' = settled s \<or> settled s' = settled s @ [(n, Rejected (timeout_error (t_timeout t)))]"
    unfolding s'_def timeout_step [OF Some] by (auto simp: fun_eq_iff)
  have "wf s'"
  proof (rule wfI)
    fix rid k assume "pendingRequests s' rid = Some k"
    then have "pendingRequests s rid = Some k" "rid \<noteq> t_requestId t"
      by (auto simp: eq split: if_splits)
    from entries [OF this]
    show "rid \<noteq> [] \<and> (\<exists>m u. k = Wrapped m \<and> timers s' m = Some u \<and> t_requestId u = rid)"
      by (simp add: eq)
  next
    fix m u assume "timers s' m = Some u"
    then have "((timers s)(n := None)) m = Some u" by (simp add: eq)
    from tm [OF this] eq(4) show "m < nextCall s' \<and> m \<notin> fst ` set (settled s')"
      by (auto simp: eq(2))
  next
    fix x assume "x \<in> set (settled s')"
    with eq(4) have "x \<in> set (settled s) \<or> fst x = n" by auto
    then show "fst x < nextCall s'" using wf_settled [OF assms, of x] n by (auto simp: eq(2))
  next
    show "distinct (map fst (settled s'))"
      using wf_distinct [OF assms] n eq(4) by auto
  qed
  then show ?thesis by (simp add: s'_def)
qed

lemma wf_on_connection: "wf (on_connection s) = wf s"
  by (rule wf_same_core) simp

lemma wf_on_close: "wf (on_close c (mark_closed c s)) = wf s"
  by (rule wf_same_core) simp

lemma wf_on_error: "wf (on_error c s) = wf s"
  by (rule wf_same_core) simp

lemma wf_step: "wf s \<Longrightarrow> wf (step s e)"
proof (cases e)
  case (Timeout n)
  assume "wf s" then show ?thesis unfolding Timeout by (rule wf_timeout)
qed (simp_all add: wf_on_message wf_dispatch wf_on_connection wf_on_close wf_on_error)

lemma run_Nil [simp]: "run s [] = s"
  by (simp add: run_def)

lemma run_Cons [simp]: "run s (e # evs) = run (step s e) evs"
  by (simp add: run_def)

lemma run_append: "run s (evs @ evs') = run (run s evs) evs'"
  by (simp add: run_def)

lemma wf_run: "wf s \<Longrightarrow> wf (run s evs)"
  by (induction evs arbitrary: s) (simp_all add: wf_step)

lemma wf_reachable: "wf (run (initial tok) evs)"
  by (rule wf_run [OF wf_initial])

subsection \<open>What a step can and cannot change\<close>

lemma after_reply_fields:
  "wf s \<Longrightarrow> pendingRequests s rid = Some k \<Longrightarrow>
   \<exists>n t. k = Wrapped n \<and> timers s n = Some t \<and> t_requestId t = rid \<and>
     n \<notin> fst ` set (settled s) \<and>
     after_reply rid k out s =
       s\<lparr>timers := (timers s)(n := None), settled := settled s @ [(n, out)],
         pendingRequests := (pendingRequests s)(rid := None)\<rparr>"
proof -
  assume w: "wf s" and p: "pendingRequests s rid = Some k"
  from wf_entry [OF w p] obtain n t
    where k: "k = Wrapped n" "timers s n = Some t" "t_requestId t = rid" by blast
  from wf_timer [OF w k(2)] have "n \<notin> fst ` set (settled s)" by simp
  with k show ?thesis
    by (intro exI [of _ n] exI [of _ t])
       (simp add: after_reply_def deliver_def settle_def clearTimeout_def)
qed

text \<open>Each step only appends to the list of settlements.\<close>

lemma settled_step: "wf s \<Longrightarrow> \<exists>ys. settled (step s e) = settled s @ ys"
proof (cases e)
  case (Message c parsed)
  assume w: "wf s"
  from on_message_cases [of c parsed s]
  show ?thesis
  proof
    assume "same_core (on_message c parsed s) s"
    then show ?thesis by (simp add: Message same_core_def)
  next
    assume "\<exists>message rid k. parsed = Some message \<and> rid \<noteq> [] \<and> pendingRequests s rid = Some k \<and>
      get_prop message ''requestId'' = Inr (Some (JStr rid)) \<and>
      same_core (on_message c parsed s) (after_reply rid k (reply_outcome message) s)"
    then obtain message rid k where h: "pendingRequests s rid = Some k"
      "same_core (on_message c parsed s) (after_reply rid k (reply_outcome message) s)"
      by blast
    from after_reply_fields [OF w h(1), of "reply_outcome message"] h(2)
    show ?thesis by (auto simp: Message same_core_def)
  qed
next
  case (Dispatch command params timeout_arg now rnd)
  show ?thesis
  proof (cases "channel_open s")
    case True
    from dispatch_open [OF True, of command params timeout_arg now rnd]
    show ?thesis by (auto simp: Dispatch)
  next
    case False
    show ?thesis by (simp add: Dispatch dispatch_closed [OF False])
  qed
next
  case (Timeout n)
  show ?thesis
  proof (cases "timers s n")
    case None then show ?thesis by (simp add: Timeout)
  next
    case (Some t) show ?thesis unfolding Timeout timeout_step [OF Some] by simp
  qed
qed (simp_all add: on_connection_def on_close_def on_error_def console_error_def mark_closed_def
      split: option.splits)

lemma settled_run: "wf s \<Longrightarrow> \<exists>ys. settled (run s evs) = settled s @ ys"
proof (induction evs arbitrary: s)
  case Nil
  then show ?case by simp
next
  case (Cons e evs)
  from settled_step [OF Cons.prems, of e] obtain ys where a: "settled (step s e) = settled s @ ys" ..
  from Cons.IH [OF wf_step [OF Cons.prems], of e] obtain zs
    where "settled (run (step s e) evs) = settled (step s e) @ zs" ..
  with a show ?case by simp
qed

lemma only_settlement:
  assumes "distinct (map fst (xs @ [(n, out)] @ ys))"
  shows "filter (\<lambda>x. fst x = n) (xs @ [(n, out)] @ ys) = [(n, out)]"
proof -
  from assms have "n \<notin> fst ` set xs" "n \<notin> fst ` set ys" by auto
  then have "filter (\<lambda>x. fst x = n) xs = []" "filter (\<lambda>x. fst x = n) ys = []"
    by (auto simp: filter_empty_conv)
  then show ?thesis by simp
qed

text \<open>A timer that is set keeps its record until it fires or is cleared.\<close>

lemma after_reply_nextCall [simp]: "nextCall (after_reply rid k out s) = nextCall s"
  by (cases k) (simp_all add: after_reply_def deliver_def settle_def clearTimeout_def)

lemma after_reply_timers:
  "timers (after_reply rid k out s) n = timers s n \<or> timers (after_reply rid k out s) n = None"
  by (cases k) (simp_all add: after_reply_def deliver_def settle_def clearTimeout_def)

lemma nextCall_step: "nextCall s \<le> nextCall (step s e)"
proof (cases e)
  case (Message c parsed)
  from on_message_cases [of c parsed s]
  show ?thesis
    by (auto simp: Message same_core_def)
next
  case (Dispatch command params timeout_arg now rnd)
  show ?thesis
  proof (cases "channel_open s")
    case True
    from dispatch_open [OF True, of command params timeout_arg now rnd]
    show ?thesis by (auto simp: Dispatch)
  next
    case False
    show ?thesis by (simp add: Dispatch dispatch_closed [OF False])
  qed
next
  case (Timeout m)
  show ?thesis
  proof (cases "timers s m")
    case None then show ?thesis by (simp add: Timeout)
  next
    case (Some u) show ?thesis unfolding Timeout timeout_step [OF Some] by simp
  qed
qed (simp_all add: on_connection_def on_close_def on_error_def console_error_def mark_closed_def
      split: option.splits)

lemma timers_step:
  assumes "n < nextCall s"
  shows "timers (step s e) n = timers s n \<or> timers (step s e) n = None"
proof (cases e)
  case (Message c parsed)
  from on_message_cases [of c parsed s]
  show ?thesis
  proof
    assume "same_core (on_message c parsed s) s"
    then show ?thesis by (simp add: Message same_core_def)
  next
    assume "\<exists>message rid k. parsed = Some message \<and> rid \<noteq> [] \<and> pendingRequests s rid = Some k \<and>
      get_prop message ''requestId'' = Inr (Some (JStr rid)) \<and>
      same_core (on_message c parsed s) (after_reply rid k (reply_outcome message) s)"
    then obtain message rid k where
      "same_core (on_message c parsed s) (after_reply rid k (reply_outcome message) s)"
      by blast
    then have "timers (on_message c parsed s) = timers (after_reply rid k (reply_outcome message) s)"
      by (simp add: same_core_def)
    with after_reply_timers [of rid k "reply_outcome message" s n]
    show ?thesis by (simp add: Message)
  qed
next
  case (Dispatch command params timeout_arg now rnd)
  show ?thesis
  proof (cases "channel_open s")
    case True
    from dispatch_open [OF True, of command params timeout_arg now rnd] assms
    show ?thesis by (auto simp: Dispatch)
  next
    case False
    show ?thesis by (simp add: Dispatch dispatch_closed [OF False])
  qed
next
  case (Timeout m)
  show ?thesis
  proof (cases "timers s m")
    case None then show ?thesis by (simp add: Timeout)
  next
    case (Some u) show ?thesis unfolding Timeout timeout_step [OF Some] by simp
  qed
qed (simp_all add: on_connection_def on_close_def on_error_def console_error_def
      mark_closed_def split: option.splits)

lemma timers_run:
  "n < nextCall s \<Longrightarrow> timers (run s evs) n = timers s n \<or> timers (run s evs) n = None"
proof (induction evs arbitrary: s)
  case Nil
  then show ?case by simp
next
  case (Cons e evs)
  from Cons.prems nextCall_step [of s e] have "n < nextCall (step s e)" by simp
  from Cons.IH [OF this] timers_step [OF Cons.prems, of e]
  show ?case by auto
qed

lemma get_prop_not_null: "message \<noteq> JNull \<Longrightarrow> \<exists>v. get_prop message k = Inr v"
  by (cases message) auto

lemma get_prop_null: "get_prop message k = Inr v \<Longrightarrow> message \<noteq> JNull"
  by (cases message) auto

lemma is_authenticated_console [simp]:
  "is_authenticated c (console_error l a s) = is_authenticated c s"
  by (simp add: is_authenticated_def console_error_def)

text \<open>The reply branch, as an equation on the state.\<close>

lemma reply_effect:
  assumes w: "wf s"
    and c: "connections s c = Some conn" "authenticated conn"
    and ty: "get_prop message ''type'' = Inr (Some (JStr ''response''))"
    and rid: "get_prop message ''requestId'' = Inr (Some (JStr rid))"
    and flds: "get_prop message ''success'' = Inr ok" "get_prop message ''data'' = Inr d"
      "get_prop message ''error'' = Inr er"
    and p: "pendingRequests s rid = Some k"
    and conv: "truthy ok \<or> \<not> toString_throws (or_else er (JStr ''Unknown error''))"
  shows "\<exists>n t. k = Wrapped n \<and> timers s n = Some t \<and> t_requestId t = rid \<and>
     n \<notin> fst ` set (settled s) \<and>
     on_message c (Some message) s =
       s\<lparr>console := console s @ [(''Received from extension:'', ObjArg message)],
         timers := (timers s)(n := None),
         settled := settled s @
           [(n, if truthy ok then Resolved d
                else Rejected (NewError (or_else er (JStr ''Unknown error''))))],
         pendingRequests := (pendingRequests s)(rid := None)\<rparr>"
proof -
  from wf_entry [OF w p] obtain n t
    where k: "rid \<noteq> []" "k = Wrapped n" "timers s n = Some t" "t_requestId t = rid" by blast
  from wf_timer [OF w k(3)] have fresh: "n \<notin> fst ` set (settled s)" by simp
  have "on_message c (Some message) s =
       s\<lparr>console := console s @ [(''Received from extension:'', ObjArg message)],
         timers := (timers s)(n := None),
         settled := settled s @
           [(n, if truthy ok then Resolved d
                else Rejected (NewError (or_else er (JStr ''Unknown error''))))],
         pendingRequests := (pendingRequests s)(rid := None)\<rparr>"
    using c ty rid flds p k conv
    by (auto simp: on_message_def message_try_def handle_response_def is_authenticated_def
        console_error_def table_get_def table_delete_def settle_def clearTimeout_def Let_def)
  with k fresh show ?thesis by blast
qed

text \<open>A reply whose id has no entry changes nothing but the log.\<close>

lemma message_try_unknown:
  assumes "pendingRequests s rid = None"
    and "get_prop message ''requestId'' = Inr (Some (JStr rid))"
    and "get_prop message ''type'' = Inr (Some (JStr ''response''))"
  shows "\<exists>s'. message_try c (Some message) s = Inr s'"
  using assms
  by (simp add: message_try_def handle_response_def table_get_def console_error_def Let_def)

lemma unknown_reply:
  assumes "pendingRequests s rid = None"
    and "get_prop message ''requestId'' = Inr (Some (JStr rid))"
  shows "same_core (on_message c (Some message) s) s \<and>
         extensionSocket (on_message c (Some message) s) = extensionSocket s \<or>
         get_prop message ''type'' = Inr (Some (JStr ''auth''))"
proof -
  obtain ty where ty: "get_prop message ''type'' = Inr ty"
    using get_prop_Inr [OF assms(2)] by blast
  obtain ok where ok: "get_prop message ''success'' = Inr ok"
    using get_prop_Inr [OF assms(2)] by blast
  show ?thesis
    using assms
    by (auto simp: on_message_def message_try_def handle_response_def ty ok table_get_def Let_def
        same_core_def console_error_def ws_send_def split: option.splits)
qed

text \<open>An id without an entry gets one only from a dispatch that issues it.\<close>

lemma absent_step:
  assumes "pendingRequests s rid = None" "\<not> issues rid e"
  shows "pendingRequests (step s e) rid = None"
proof (cases e)
  case (Message c parsed)
  from on_message_cases [of c parsed s]
  show ?thesis
  proof
    assume "same_core (on_message c parsed s) s"
    then show ?thesis using assms(1) by (simp add: Message same_core_def)
  next
    assume "\<exists>message rid k. parsed = Some message \<and> rid \<noteq> [] \<and> pendingRequests s rid = Some k \<and>
      get_prop message ''requestId'' = Inr (Some (JStr rid)) \<and>
      same_core (on_message c parsed s) (after_reply rid k (reply_outcome message) s)"
    then obtain message r k where
      "same_core (on_message c parsed s) (after_reply r k (reply_outcome message) s)"
      by blast
    then have "pendingRequests (on_message c parsed s) =
        pendingRequests (after_reply r k (reply_outcome message) s)"
      by (simp add: same_core_def)
    moreover have "pendingRequests (after_reply r k (reply_outcome message) s) rid = None"
      using assms(1)
      by (cases k) (simp_all add: after_reply_def deliver_def settle_def clearTimeout_def)
    ultimately show ?thesis using assms(1) by (simp add: Message)
  qed
next
  case (Dispatch command params timeout_arg now rnd)
  with assms(2) have ne: "requestId now rnd \<noteq> rid" by (simp add: issues_def)
  show ?thesis
  proof (cases "channel_open s")
    case True
    from dispatch_open [OF True, of command params timeout_arg now rnd] ne assms(1)
    show ?thesis by (auto simp: Dispatch)
  next
    case False
    show ?thesis using assms(1) by (simp add: Dispatch dispatch_closed [OF False])
  qed
next
  case (Timeout m)
  show ?thesis
  proof (cases "timers s m")
    case None then show ?thesis using assms(1) by (simp add: Timeout)
  next
    case (Some u) show ?thesis unfolding Timeout timeout_step [OF Some] using assms(1) by simp
  qed
qed (use assms(1) in \<open>simp_all add: on_connection_def on_close_def on_error_def console_error_def
      mark_closed_def split: option.splits\<close>)

lemma absent_run:
  "pendingRequests s rid = None \<Longrightarrow> \<forall>e \<in> set evs. \<not> issues rid e \<Longrightarrow>
   pendingRequests (run s evs) rid = None"
  by (induction evs arbitrary: s) (simp_all add: absent_step)

lemma dispatch_sets_timer:
  assumes "channel_open s"
  shows "timers (step s (Dispatch command params timeout_arg now rnd)) (nextCall s) =
     Some \<lparr>t_requestId = requestId now rnd,
           t_timeout = (case timeout_arg of None \<Rightarrow> 30000 | Some ms \<Rightarrow> ms)\<rparr>
     \<and> nextCall s < nextCall (step s (Dispatch command params timeout_arg now rnd))"
  using dispatch_open [OF assms, of command params timeout_arg now rnd] by auto

text \<open>
  A call keeps its entry as long as no message carries its id, no dispatch computes the
  id again and its own timer does not fire.
\<close>

lemma owns_dispatch:
  assumes "channel_open s"
    and "\<forall>m t. timers s m = Some t \<longrightarrow> t_requestId t \<noteq> requestId now rnd"
  shows "owns (requestId now rnd) (nextCall s)
           (step s (Dispatch command params timeout_arg now rnd))"
  using dispatch_open [OF assms(1), of command params timeout_arg now rnd] assms(2)
  by (auto simp: owns_def split: if_splits)

lemma owns_step:
  assumes w: "wf s" and o: "owns rid n s"
    and q: "\<not> carries rid e" "\<not> issues rid e" "e \<noteq> Timeout n"
  shows "owns rid n (step s e)"
proof (cases e)
  case (Message c parsed)
  from on_message_cases [of c parsed s]
  show ?thesis
  proof
    assume "same_core (on_message c parsed s) s"
    then show ?thesis using o by (auto simp: Message same_core_def owns_def)
  next
    assume "\<exists>message rid k. parsed = Some message \<and> rid \<noteq> [] \<and> pendingRequests s rid = Some k \<and>
      get_prop message ''requestId'' = Inr (Some (JStr rid)) \<and>
      same_core (on_message c parsed s) (after_reply rid k (reply_outcome message) s)"
    then obtain message r k where h: "parsed = Some message" "pendingRequests s r = Some k"
      "get_prop message ''requestId'' = Inr (Some (JStr r))"
      "same_core (on_message c parsed s) (after_reply r k (reply_outcome message) s)"
      by blast
    from q(1) h(1,3) have ne: "r \<noteq> rid" by (auto simp: Message carries_def)
    from after_reply_fields [OF w h(2), of "reply_outcome message"] obtain m where
      e: "after_reply r k (reply_outcome message) s =
            s\<lparr>timers := (timers s)(m := None),
              settled := settled s @ [(m, reply_outcome message)],
              pendingRequests := (pendingRequests s)(r := None)\<rparr>"
      by blast
    from h(4) have "pendingRequests (on_message c parsed s) = (pendingRequests s)(r := None)"
      "timers (on_message c parsed s) = (timers s)(m := None)"
      by (simp_all add: same_core_def e)
    with o ne show ?thesis by (auto simp: Message owns_def split: if_splits)
  qed
next
  case (Dispatch command params timeout_arg now rnd)
  with q(2) have ne: "requestId now rnd \<noteq> rid" by (simp add: issues_def)
  show ?thesis
  proof (cases "channel_open s")
    case True
    from dispatch_open [OF True, of command params timeout_arg now rnd] ne o
    show ?thesis by (auto simp: Dispatch owns_def split: if_splits)
  next
    case False
    show ?thesis using o by (simp add: Dispatch dispatch_closed [OF False] owns_def)
  qed
next
  case (Timeout m)
  with q(3) have mn: "m \<noteq> n" by simp
  show ?thesis
  proof (cases "timers s m")
    case None then show ?thesis using o by (simp add: Timeout)
  next
    case (Some u)
    with o mn have "t_requestId u \<noteq> rid" by (auto simp: owns_def)
    with o show ?thesis
      unfolding Timeout timeout_step [OF Some] by (auto simp: owns_def split: if_splits)
  qed
qed (use o in \<open>simp_all add: on_connection_def on_close_def on_error_def console_error_def
      mark_closed_def owns_def split: option.splits\<close>)

lemma owns_run:
  "wf s \<Longrightarrow> owns rid n s \<Longrightarrow>
   \<forall>e \<in> set evs. \<not> carries rid e \<and> \<not> issues rid e \<and> e \<noteq> Timeout n \<Longrightarrow>
   owns rid n (run s evs)"
proof (induction evs arbitrary: s)
  case Nil
  then show ?case by simp
next
  case (Cons e evs)
  from Cons.prems have "owns rid n (step s e)" by (intro owns_step) simp_all
  with Cons.IH [OF wf_step [OF Cons.prems(1)], of e] Cons.prems(3)
  show ?case by simp
qed

text \<open>Where a settlement can come from, for any event in any state with the invariant.\<close>

lemma settlement_sources:
  assumes w: "wf s"
  shows "settled (step s e) = settled s \<or>
     (\<exists>n t. e = Timeout n \<and> timers s n = Some t \<and>
        settled (step s e) = settled s @ [(n, Rejected (timeout_error (t_timeout t)))]) \<or>
     (\<exists>c m rid n. e = Message c (Some m) \<and> is_authenticated c s \<and>
        get_prop m ''type'' = Inr (Some (JStr ''response'')) \<and>
        get_prop m ''requestId'' = Inr (Some (JStr rid)) \<and>
        pendingRequests s rid = Some (Wrapped n) \<and>
        settled (step s e) = settled s @ [(n, reply_outcome m)]) \<or>
     (\<exists>command params timeout_arg now rnd.
        e = Dispatch command params timeout_arg now rnd \<and> \<not> channel_open s \<and>
        settled (step s e) =
          settled s @ [(nextCall s, Rejected (NewError (JStr ''Extension not connected'')))])"
proof (cases e)
  case (Message c parsed)
  show ?thesis
  proof (cases "live c s")
    case False
    then show ?thesis by (simp add: Message)
  next
    case True
    from on_message_cases_full [of c parsed s]
    show ?thesis
    proof
      assume "same_core (on_message c parsed s) s"
      then show ?thesis using True by (simp add: Message same_core_def)
    next
      assume "\<exists>message rid k. parsed = Some message \<and> rid \<noteq> [] \<and> pendingRequests s rid = Some k \<and>
        get_prop message ''requestId'' = Inr (Some (JStr rid)) \<and>
        is_authenticated c s \<and> get_prop message ''type'' = Inr (Some (JStr ''response'')) \<and>
        same_core (on_message c parsed s) (after_reply rid k (reply_outcome message) s)"
      then obtain message rid k where h: "parsed = Some message" "pendingRequests s rid = Some k"
        "get_prop message ''requestId'' = Inr (Some (JStr rid))"
        "is_authenticated c s" "get_prop message ''type'' = Inr (Some (JStr ''response''))"
        "same_core (on_message c parsed s) (after_reply rid k (reply_outcome message) s)"
        by blast
      from after_reply_fields [OF w h(2), of "reply_outcome message"] obtain n where
        n: "k = Wrapped n" and
        e: "after_reply rid k (reply_outcome message) s =
            s\<lparr>timers := (timers s)(n := None),
              settled := settled s @ [(n, reply_outcome message)],
              pendingRequests := (pendingRequests s)(rid := None)\<rparr>"
        by blast
      from h(6) have "settled (step s e) = settled s @ [(n, reply_outcome message)]"
        using True by (simp add: Message same_core_def e)
      with h n True show ?thesis unfolding Message by blast
    qed
  qed
next
  case (Dispatch command params timeout_arg now rnd)
  show ?thesis
  proof (cases "channel_open s")
    case True
    from dispatch_open [OF True, of command params timeout_arg now rnd]
    show ?thesis by (auto simp: Dispatch)
  next
    case False
    then show ?thesis by (simp add: Dispatch dispatch_closed [OF False])
  qed
next
  case (Timeout n)
  show ?thesis
  proof (cases "timers s n")
    case None then show ?thesis by (simp add: Timeout)
  next
    case (Some t) show ?thesis unfolding Timeout timeout_step [OF Some] using Some by simp
  qed
qed (simp_all add: on_connection_def on_close_def on_error_def console_error_def mark_closed_def
      split: option.splits)

subsection \<open>The authenticated variable never goes back\<close>

lemma grows_refl [simp]: "grows s s"
  by (simp add: grows_def split: option.splits)

lemma grows_trans: "grows s s' \<Longrightarrow> grows s' s'' \<Longrightarrow> grows s s''"
  unfolding grows_def
proof (intro conjI allI)
  fix c
  assume a: "nextConnection s' = nextConnection s \<and> AUTH_TOKEN s' = AUTH_TOKEN s \<and>
     (\<forall>c. case connections s c of
            None \<Rightarrow> connections s' c = None
          | Some conn \<Rightarrow>
              (\<exists>conn'. connections s' c = Some conn' \<and>
                 (authenticated conn \<longrightarrow> authenticated conn')))"
    and b: "nextConnection s'' = nextConnection s' \<and> AUTH_TOKEN s'' = AUTH_TOKEN s' \<and>
     (\<forall>c. case connections s' c of
            None \<Rightarrow> connections s'' c = None
          | Some conn \<Rightarrow>
              (\<exists>conn'. connections s'' c = Some conn' \<and>
                 (authenticated conn \<longrightarrow> authenticated conn')))"
  from a have a': "case connections s c of
            None \<Rightarrow> connections s' c = None
          | Some conn \<Rightarrow>
              (\<exists>conn'. connections s' c = Some conn' \<and>
                 (authenticated conn \<longrightarrow> authenticated conn'))" by blast
  from b have b': "case connections s' c of
            None \<Rightarrow> connections s'' c = None
          | Some conn \<Rightarrow>
              (\<exists>conn'. connections s'' c = Some conn' \<and>
                 (authenticated conn \<longrightarrow> authenticated conn'))" by blast
  from a' b' show "case connections s c of
            None \<Rightarrow> connections s'' c = None
          | Some conn \<Rightarrow>
              (\<exists>conn'. connections s'' c = Some conn' \<and>
                 (authenticated conn \<longrightarrow> authenticated conn'))"
    by (cases "connections s c") auto
qed simp_all

lemma grows_same:
  "connections s' = connections s \<Longrightarrow> nextConnection s' = nextConnection s \<Longrightarrow>
   AUTH_TOKEN s' = AUTH_TOKEN s \<Longrightarrow> grows s s'"
  by (simp add: grows_def split: option.splits)

lemma grows_console: "grows s (console_error l a s)"
  by (rule grows_same) (simp_all add: console_error_def)

lemma grows_ws_send: "grows s (ws_send c p s)"
  by (simp add: grows_def ws_send_def split: option.splits)

lemma grows_ws_close: "grows s (ws_close c s)"
  by (simp add: grows_def ws_close_def split: option.splits)

lemma grows_mark_closed: "grows s (mark_closed c s)"
  by (simp add: grows_def mark_closed_def split: option.splits)

lemma grows_set_authenticated: "grows s (set_authenticated c s)"
  by (simp add: grows_def set_authenticated_def split: option.splits)

lemma grows_extensionSocket: "grows s (s\<lparr>extensionSocket := x\<rparr>)"
  by (rule grows_same) simp_all

lemma grows_console': "grows s s' \<Longrightarrow> grows s (console_error l a s')"
  by (erule grows_trans) (rule grows_console)

lemma grows_ws_send': "grows s s' \<Longrightarrow> grows s (ws_send c p s')"
  by (erule grows_trans) (rule grows_ws_send)

lemma grows_ws_close': "grows s s' \<Longrightarrow> grows s (ws_close c s')"
  by (erule grows_trans) (rule grows_ws_close)

lemma grows_mark_closed': "grows s s' \<Longrightarrow> grows s (mark_closed c s')"
  by (erule grows_trans) (rule grows_mark_closed)

lemma grows_set_authenticated': "grows s s' \<Longrightarrow> grows s (set_authenticated c s')"
  by (erule grows_trans) (rule grows_set_authenticated)

lemma grows_extensionSocket': "grows s s' \<Longrightarrow> grows s (s'\<lparr>extensionSocket := x\<rparr>)"
  by (erule grows_trans) (rule grows_extensionSocket)

lemmas grows_intros = grows_console' grows_ws_send' grows_ws_close' grows_mark_closed'
  grows_set_authenticated' grows_extensionSocket' grows_refl

lemma grows_handle_auth:
  "handle_auth c m s = Inr s' \<Longrightarrow> grows s s'"
proof -
  assume h: "handle_auth c m s = Inr s'"
  have yes: "grows s (console_error l a (ws_send c p ((set_authenticated c s)\<lparr>extensionSocket := Some c\<rparr>)))"
    for l a p
    by (intro grows_intros)
  have no: "grows s (ws_close c (console_error l a (ws_send c p s)))" for l a p
    by (intro grows_intros)
  from h show ?thesis
    by (auto simp: handle_auth_def yes no split: sum.splits if_splits)
qed

lemma grows_handle_auth_Inl:
  "handle_auth c m s = Inl (e, s') \<Longrightarrow> grows s s'"
  by (auto simp: handle_auth_def split: sum.splits if_splits)

lemma grows_after_reply: "grows s (after_reply rid k out s)"
  by (rule grows_same; cases k)
     (simp_all add: after_reply_def deliver_def settle_def clearTimeout_def)

lemma grows_handle_response:
  assumes "get_prop message ''type'' = Inr ty"
  shows "(\<exists>s'. handle_response message s = Inr s' \<and> grows s s') \<or>
         handle_response message s = Inl (TypeError, s)"
  using handle_response_cases [OF assms, of s] grows_after_reply [of s]
  by (auto simp: after_reply_def [symmetric])

lemma grows_on_message: "grows s (on_message c parsed s)"
proof (cases parsed)
  case None
  then show ?thesis by (simp add: on_message_def message_try_def grows_console)
next
  case (Some message)
  define s1 where "s1 = console_error ''Received from extension:'' (ObjArg message) s"
  have s1: "grows s s1" by (simp add: s1_def grows_console)
  show ?thesis
  proof (cases "get_prop message ''type''")
    case (Inl e)
    then show ?thesis using Some
      by (simp add: on_message_def message_try_def) (intro grows_intros)
  next
    case (Inr ty)
    have om: "on_message c parsed s =
        (case (if ty = Some (JStr ''auth'') then handle_auth c message s1
               else if \<not> is_authenticated c s1 then
                   Inr (ws_send c not_authenticated_notice
                          (console_error ''Rejecting message from unauthenticated connection''
                             NoArg s1))
               else if ty = Some (JStr ''response'') then handle_response message s1
               else Inr s1) of
           Inl (e, s') \<Rightarrow> console_error ''Error parsing message from extension:'' (ErrArg e) s'
         | Inr s' \<Rightarrow> s')"
      using Some Inr by (simp add: on_message_def message_try_def s1_def [symmetric])
    show ?thesis
    proof (cases "ty = Some (JStr ''auth'')")
      case True
      show ?thesis
      proof (cases "handle_auth c message s1")
        case (Inl a)
        obtain e s' where a: "a = (e, s')" by (cases a)
        with Inl have "grows s1 s'" using grows_handle_auth_Inl by blast
        with s1 have "grows s s'" by (rule grows_trans)
        then have "grows s (console_error ''Error parsing message from extension:'' (ErrArg e) s')"
          by (rule grows_trans [OF _ grows_console])
        with Inl a True show ?thesis by (simp add: om)
      next
        case r: (Inr s')
        from s1 grows_handle_auth [OF r] have "grows s s'" by (rule grows_trans)
        with r True show ?thesis by (simp add: om)
      qed
    next
      case na: False
      show ?thesis
      proof (cases "is_authenticated c s1 \<and> ty = Some (JStr ''response'')")
        case False
        have "grows s (ws_send c not_authenticated_notice
                (console_error ''Rejecting message from unauthenticated connection'' NoArg s1))"
          by (intro grows_ws_send' grows_console' s1)
        with False show ?thesis using na s1 by (auto simp: om)
      next
        case True
        from grows_handle_response [OF Inr, of s1]
        show ?thesis
        proof
          assume "\<exists>s'. handle_response message s1 = Inr s' \<and> grows s1 s'"
          then obtain s' where h: "handle_response message s1 = Inr s'" "grows s1 s'" by blast
          from s1 h(2) have "grows s s'" by (rule grows_trans)
          with h(1) True na show ?thesis by (simp add: om)
        next
          assume h: "handle_response message s1 = Inl (TypeError, s1)"
          have "grows s (console_error ''Error parsing message from extension:''
                          (ErrArg TypeError) s1)"
            by (intro grows_console' s1)
          with h True na show ?thesis by (simp add: om)
        qed
      qed
    qed
  qed
qed

lemma grows_dispatch: "grows s (sendCommandToExtension command params timeout_arg now rnd s)"
proof (cases "channel_open s")
  case True
  from dispatch_open [OF True, of command params timeout_arg now rnd]
  show ?thesis by (auto simp: grows_def split: option.splits)
next
  case False
  show ?thesis by (rule grows_same) (simp_all add: dispatch_closed [OF False])
qed

lemma grows_timeout: "grows s (step s (Timeout n))"
proof (cases "timers s n")
  case None then show ?thesis by simp
next
  case (Some t) show ?thesis unfolding timeout_step [OF Some]
    by (rule grows_same) simp_all
qed

lemma grows_step: "e \<noteq> Connect \<Longrightarrow> grows s (step s e)"
proof (cases e)
  case (Close c)
  have "grows s (on_close c (mark_closed c s))"
    unfolding on_close_def
    unfolding console_error_def [symmetric] by (intro grows_intros)
  then show ?thesis by (simp add: Close)
next
  case (Timeout n)
  show ?thesis unfolding Timeout by (rule grows_timeout)
qed (simp_all add: grows_on_message grows_dispatch on_error_def grows_console)

lemma grows_sticky:
  assumes "grows s s'" "fresh_sockets s"
  shows "fresh_sockets s' \<and> AUTH_TOKEN s' = AUTH_TOKEN s \<and>
         (is_authenticated c s \<longrightarrow> is_authenticated c s')"
proof (intro conjI impI)
  show "fresh_sockets s'"
    unfolding fresh_sockets_def
  proof (intro allI impI)
    fix d conn assume d: "connections s' d = Some conn"
    from assms(1) have "case connections s d of
            None \<Rightarrow> connections s' d = None
          | Some conn \<Rightarrow>
              (\<exists>conn'. connections s' d = Some conn' \<and>
                 (authenticated conn \<longrightarrow> authenticated conn'))"
      unfolding grows_def by blast
    with d obtain conn0 where "connections s d = Some conn0"
      by (cases "connections s d") auto
    with assms(2) have "d < nextConnection s" unfolding fresh_sockets_def by blast
    with assms(1) show "d < nextConnection s'" by (simp add: grows_def)
  qed
  show "AUTH_TOKEN s' = AUTH_TOKEN s" using assms(1) by (simp add: grows_def)
  assume "is_authenticated c s"
  then obtain conn where conn: "connections s c = Some conn" "authenticated conn"
    by (auto simp: is_authenticated_def split: option.splits)
  from assms(1) have "case connections s c of
            None \<Rightarrow> connections s' c = None
          | Some conn \<Rightarrow>
              (\<exists>conn'. connections s' c = Some conn' \<and>
                 (authenticated conn \<longrightarrow> authenticated conn'))"
    unfolding grows_def by blast
  with conn show "is_authenticated c s'" by (auto simp: is_authenticated_def)
qed

lemma sticky_step:
  assumes "fresh_sockets s"
  shows "fresh_sockets (step s e) \<and> AUTH_TOKEN (step s e) = AUTH_TOKEN s \<and>
         (is_authenticated c s \<longrightarrow> is_authenticated c (step s e))"
proof (cases "e = Connect")
  case True
  have "connections s (nextConnection s) = None"
  proof (cases "connections s (nextConnection s)")
    case (Some conn)
    with assms have "nextConnection s < nextConnection s" unfolding fresh_sockets_def by blast
    then show ?thesis by simp
  qed simp
  then have "is_authenticated c s \<longrightarrow> c \<noteq> nextConnection s"
    by (auto simp: is_authenticated_def)
  with assms show ?thesis
    unfolding True fresh_sockets_def
    by (auto simp: on_connection_def console_error_def is_authenticated_def less_Suc_eq)
next
  case False
  from grows_sticky [OF grows_step [OF False] assms] show ?thesis .
qed

lemma sticky_run:
  "fresh_sockets s \<Longrightarrow>
     fresh_sockets (run s evs) \<and> AUTH_TOKEN (run s evs) = AUTH_TOKEN s \<and>
     (is_authenticated c s \<longrightarrow> is_authenticated c (run s evs))"
proof (induction evs arbitrary: s)
  case Nil
  then show ?case by simp
next
  case (Cons e evs)
  from sticky_step [OF Cons.prems, of e c] Cons.IH [of "step s e"]
  show ?case by simp
qed

lemma fresh_initial: "fresh_sockets (initial tok)"
  by (simp add: fresh_sockets_def initial_def)

subsection \<open>The claims\<close>

lemmas handler_defs =
  run_def initial_def on_connection_def on_message_def message_try_def
  handle_auth_def handle_response_def console_error_def ws_send_def ws_close_def settle_def
  clearTimeout_def is_authenticated_def set_authenticated_def live_def mark_closed_def
  on_close_def on_error_def sendCommandToExtension_def channel_open_def requestId_def
  command_message_def timeout_callback_def timeout_error_def table_get_def table_delete_def
  or_else_def auth_response_def not_authenticated_notice_def Let_def

lemmas fixture_defs =
  auth_message_def success_reply_def failure_reply_def peer_authenticated_def
  two_outstanding_def

lemma show_nat_examples:
  "show_nat 5 = ''5''" "show_nat 6 = ''6''" "show_nat 1000 = ''1000''"
  "show_nat 30000 = ''30000''"
  by (simp_all add: show_nat.simps digit_char_def)

text \<open>
  C1. In every state the relay can reach, whatever the order of the events before, a reply
  envelope (type "response") on an authenticated socket whose \<open>requestId\<close> has an entry
  settles exactly the call that registered the id: the entry is the wrapped pair of some
  call \<open>n\<close> whose timer is still set and whose promise nobody has settled; the handler
  resolves promise \<open>n\<close> with the \<open>data\<close> member when \<open>success\<close> is truthy and rejects it
  otherwise with an error built from the \<open>error\<close> member (or "Unknown error"), clears
  timer \<open>n\<close> and deletes the entry. The equation on the state shows the frame: every other
  entry, every other timer, the sockets and the active slot stay as they are. The envelope
  is one whose error text can be built: \<open>success\<close> is truthy, or the \<open>error\<close> member is
  absent or a string (as the wire format declares it) or any other value that converts
  to a string.
\<close>

theorem reply_settles_matching_request:
  assumes "s = run (initial tok) evs"
    and "connections s c = Some conn" "authenticated conn"
    and "get_prop message ''type'' = Inr (Some (JStr ''response''))"
    and "get_prop message ''requestId'' = Inr (Some (JStr rid))"
    and "get_prop message ''success'' = Inr ok" "get_prop message ''data'' = Inr d"
      "get_prop message ''error'' = Inr er"
    and "pendingRequests s rid = Some k"
    and "truthy ok \<or> \<not> toString_throws (or_else er (JStr ''Unknown error''))"
  shows "\<exists>n t. k = Wrapped n \<and> timers s n = Some t \<and> t_requestId t = rid \<and>
     n \<notin> fst ` set (settled s) \<and>
     on_message c (Some message) s =
       s\<lparr>console := console s @ [(''Received from extension:'', ObjArg message)],
         timers := (timers s)(n := None),
         settled := settled s @
           [(n, if truthy ok then Resolved d
                else Rejected (NewError (or_else er (JStr ''Unknown error''))))],
         pendingRequests := (pendingRequests s)(rid := None)\<rparr>"
proof -
  have "wf s" unfolding assms(1) by (rule wf_reachable)
  from reply_effect [OF this assms(2-)] show ?thesis .
qed

text \<open>
  Two calls are outstanding, issued as "5-0.5" and then "6-0.25"; the replies come in the
  opposite order and each settles its own call.
\<close>

theorem reply_settles_matching_request_witness:
  "let s = run (initial ''abc123'') two_outstanding;
       s' = on_message 0 (Some (success_reply ''6-0.25'' (JNum 7))) s;
       s'' = on_message 0 (Some (failure_reply ''5-0.5'' ''no tab'')) s'
   in pendingRequests s ''5-0.5'' = Some (Wrapped 0) \<and>
      pendingRequests s ''6-0.25'' = Some (Wrapped 1) \<and>
      settled s = [] \<and>
      settled s' = [(1, Resolved (Some (JNum 7)))] \<and>
      pendingRequests s' ''6-0.25'' = None \<and>
      pendingRequests s' ''5-0.5'' = Some (Wrapped 0) \<and>
      timers s' 0 = timers s 0 \<and> timers s' 1 = None \<and>
      settled s'' = [(1, Resolved (Some (JNum 7))),
                     (0, Rejected (NewError (JStr ''no tab'')))] \<and>
      pendingRequests s'' ''5-0.5'' = None"
proof -
  define s where "s = run (initial ''abc123'') two_outstanding"
  define m where "m = success_reply ''6-0.25'' (JNum 7)"
  have c: "connections s 0 = Some \<lparr>authenticated = True, readyState = OPEN,
      sent = [auth_response True ''Authentication successful'',
              command_message ''5-0.5'' ''ping'' (Some (JObj [])),
              command_message ''6-0.25'' ''listTabs'' (Some (JObj []))]\<rparr>"
    by (simp add: s_def fixture_defs handler_defs show_nat_examples)
  have p: "pendingRequests s ''6-0.25'' = Some (Wrapped 1)"
    "pendingRequests s ''5-0.5'' = Some (Wrapped 0)" "settled s = []"
    by (simp_all add: s_def fixture_defs handler_defs show_nat_examples)
  have g: "get_prop m ''type'' = Inr (Some (JStr ''response''))"
    "get_prop m ''requestId'' = Inr (Some (JStr ''6-0.25''))"
    "get_prop m ''success'' = Inr (Some (JBool True))"
    "get_prop m ''data'' = Inr (Some (JNum 7))"
    "get_prop m ''error'' = Inr None"
    by (simp_all add: m_def success_reply_def)
  from reply_settles_matching_request [OF s_def c _ g p(1)]
  obtain n where n: "Wrapped 1 = Wrapped n" and
    e: "on_message 0 (Some m) s =
       s\<lparr>console := console s @ [(''Received from extension:'', ObjArg m)],
         timers := (timers s)(n := None),
         settled := settled s @ [(n, Resolved (Some (JNum 7)))],
         pendingRequests := (pendingRequests s)(''6-0.25'' := None)\<rparr>"
    by auto
  from n have n1: "n = 1" by simp
  define s' where "s' = on_message 0 (Some m) s"
  have s': "settled s' = [(1, Resolved (Some (JNum 7)))]" "pendingRequests s' ''6-0.25'' = None"
    "pendingRequests s' ''5-0.5'' = Some (Wrapped 0)" "timers s' 0 = timers s 0"
    "timers s' 1 = None" "connections s' = connections s"
    unfolding s'_def e n1 using p by simp_all
  have s'': "settled (on_message 0 (Some (failure_reply ''5-0.5'' ''no tab'')) s') =
       [(1, Resolved (Some (JNum 7))), (0, Rejected (NewError (JStr ''no tab'')))]"
    "pendingRequests (on_message 0 (Some (failure_reply ''5-0.5'' ''no tab'')) s') ''5-0.5'' = None"
    using s' c
    by (simp_all add: failure_reply_def on_message_def message_try_def handle_response_def
        is_authenticated_def console_error_def table_get_def table_delete_def settle_def
        clearTimeout_def or_else_def Let_def)
  show ?thesis
    unfolding Let_def s_def [symmetric] m_def [symmetric] s'_def [symmetric]
    using p s' s'' by simp
qed

text \<open>
  C2, as the claim states it, fails when two calls compute the same id. In the first run
  both calls get "5-0.5" and no reply ever comes; the timer of call 0 finds the entry (it
  is the one of call 1), deletes it and fails call 0; the timer of call 1 then finds no
  entry and does nothing: call 1 got no reply within its timeout and never fails. In the
  second run call 0 times out, a later call computes "5-0.5" again, and the late reply
  for that id is no no-op: it resolves the later call.
\<close>

theorem timeout_with_repeated_id:
  "(let s = run (initial ''abc123'')
              (peer_authenticated @
               [Dispatch ''ping'' (Some (JObj [])) None 5 ''0.5'',
                Dispatch ''ping'' (Some (JObj [])) None 5 ''0.5'',
                Timeout 0, Timeout 1])
    in settled s = [(0, Rejected (NewError (JStr ''Request timeout after 30000ms'')))] \<and>
       timers s 0 = None \<and> timers s 1 = None \<and> pendingRequests s ''5-0.5'' = None) \<and>
   (let s = run (initial ''abc123'')
              (peer_authenticated @
               [Dispatch ''ping'' (Some (JObj [])) None 5 ''0.5'',
                Timeout 0,
                Dispatch ''ping'' (Some (JObj [])) None 5 ''0.5'',
                Message 0 (Some (success_reply ''5-0.5'' (JNum 7)))])
    in settled s = [(0, Rejected (NewError (JStr ''Request timeout after 30000ms''))),
                    (1, Resolved (Some (JNum 7)))])"
  by (simp add: fixture_defs handler_defs show_nat_examples)

text \<open>
  C2, amended. A call is dispatched on an open channel (with the clock \<open>now\<close>, the random
  text \<open>rnd\<close> and an optional timeout, 30000 by default) while no outstanding call's timer
  was set for the same id. Until its timer fires no message carrying its id arrives and
  no dispatch computes the id again (the events \<open>evs1\<close>). Then the promise was not settled
  before; the callback removes the entry and the timer and rejects the promise with
  "Request timeout after <ms>ms"; after any further events \<open>evs2\<close> this is still the only
  settlement of the call; and if no dispatch among \<open>evs2\<close> computed the same id again, a
  reply carrying the id on any socket \<open>c\<close> runs the \<^verbatim>\<open>try\<close> block to its end without
  an exception and leaves the table, the timers, the settlements and the active slot as
  they were.
\<close>

theorem timeout_fails_dispatch_once:
  assumes s0: "s0 = run (initial tok) evs0" "channel_open s0"
    and unused: "\<forall>m t. timers s0 m = Some t \<longrightarrow> t_requestId t \<noteq> requestId now rnd"
    and s: "s = run (step s0 (Dispatch command params timeout_arg now rnd)) evs1"
    and quiet1: "\<forall>e \<in> set evs1. \<not> carries (requestId now rnd) e \<and>
                   \<not> issues (requestId now rnd) e \<and> e \<noteq> Timeout (nextCall s0)"
    and reply: "get_prop message ''type'' = Inr (Some (JStr ''response''))"
      "get_prop message ''requestId'' = Inr (Some (JStr (requestId now rnd)))"
  shows "let n = nextCall s0; rid = requestId now rnd;
             failure = (n, Rejected (timeout_error
                            (case timeout_arg of None \<Rightarrow> 30000 | Some ms \<Rightarrow> ms)));
             s1 = step s (Timeout n);
             s2 = run s1 evs2;
             s3 = on_message c (Some message) s2
         in pendingRequests s rid = Some (Wrapped n) \<and>
            n \<notin> fst ` set (settled s) \<and>
            s1 = s\<lparr>timers := (timers s)(n := None),
                   pendingRequests := (pendingRequests s)(rid := None),
                   settled := settled s @ [failure]\<rparr> \<and>
            filter (\<lambda>x. fst x = n) (settled s2) = [failure] \<and>
            ((\<forall>e \<in> set evs2. \<not> issues rid e) \<longrightarrow>
               (\<exists>s'. message_try c (Some message) s2 = Inr s') \<and>
               pendingRequests s3 = pendingRequests s2 \<and> timers s3 = timers s2 \<and>
               settled s3 = settled s2 \<and> extensionSocket s3 = extensionSocket s2)"
proof -
  define n where "n = nextCall s0"
  define rid where "rid = requestId now rnd"
  define ms where "ms = (case timeout_arg of None \<Rightarrow> 30000 | Some ms \<Rightarrow> (ms::nat))"
  define sd where "sd = step s0 (Dispatch command params timeout_arg now rnd)"
  define s1 where "s1 = step s (Timeout n)"
  define s2 where "s2 = run s1 evs2"
  have w0: "wf s0" unfolding s0(1) by (rule wf_reachable)
  have wd: "wf sd" unfolding sd_def by (rule wf_step [OF w0])
  have w: "wf s" unfolding s sd_def [symmetric] by (rule wf_run [OF wd])
  have w1: "wf s1" unfolding s1_def by (rule wf_step [OF w])
  have w2: "wf s2" unfolding s2_def by (rule wf_run [OF w1])
  from owns_dispatch [OF s0(2) unused, of command params timeout_arg]
  have "owns rid n sd" by (simp add: rid_def n_def sd_def)
  from owns_run [OF wd this, of evs1] quiet1
  have "owns rid n s" by (simp add: rid_def n_def s sd_def)
  then have waiting: "pendingRequests s rid = Some (Wrapped n)" by (simp add: owns_def)
  from dispatch_sets_timer [OF s0(2), of command params timeout_arg now rnd]
  have td: "timers sd n = Some \<lparr>t_requestId = rid, t_timeout = ms\<rparr>" "n < nextCall sd"
    by (simp_all add: sd_def n_def rid_def ms_def)
  from wf_entry [OF w waiting] obtain t where t: "timers s n = Some t"
    by auto
  from timers_run [OF td(2), of evs1] t td(1)
  have ts: "timers s n = Some \<lparr>t_requestId = rid, t_timeout = ms\<rparr>"
    by (auto simp: s sd_def)
  from wf_timer [OF w ts] have fresh: "n \<notin> fst ` set (settled s)" by simp
  have e1: "s1 = s\<lparr>timers := (timers s)(n := None),
                   pendingRequests := (pendingRequests s)(rid := None),
                   settled := settled s @ [(n, Rejected (timeout_error ms))]\<rparr>"
    unfolding s1_def timeout_step [OF ts] using waiting by simp
  from settled_run [OF w1, of evs2] obtain ys where ys: "settled s2 = settled s1 @ ys"
    by (auto simp: s2_def)
  have once: "filter (\<lambda>x. fst x = n) (settled s2) = [(n, Rejected (timeout_error ms))]"
  proof -
    have "settled s2 = settled s @ [(n, Rejected (timeout_error ms))] @ ys"
      using ys by (simp add: e1)
    moreover from wf_distinct [OF w2] this
    have "distinct (map fst (settled s @ [(n, Rejected (timeout_error ms))] @ ys))" by simp
    ultimately show ?thesis using only_settlement by metis
  qed
  have late: "(\<exists>s'. message_try c (Some message) s2 = Inr s') \<and>
      pendingRequests (on_message c (Some message) s2) = pendingRequests s2 \<and>
      timers (on_message c (Some message) s2) = timers s2 \<and>
      settled (on_message c (Some message) s2) = settled s2 \<and>
      extensionSocket (on_message c (Some message) s2) = extensionSocket s2"
    if quiet: "\<forall>e \<in> set evs2. \<not> issues rid e"
  proof -
    have "pendingRequests s1 rid = None" by (simp add: e1)
    from absent_run [OF this quiet] have gone: "pendingRequests s2 rid = None"
      by (simp add: s2_def)
    from unknown_reply [OF gone, of message c] reply
    have "same_core (on_message c (Some message) s2) s2 \<and>
         extensionSocket (on_message c (Some message) s2) = extensionSocket s2"
      by (simp add: rid_def)
    with message_try_unknown [OF gone reply(2) [folded rid_def] reply(1), of c] show ?thesis
      by (simp add: same_core_def)
  qed
  show ?thesis
    unfolding Let_def n_def [symmetric] rid_def [symmetric] ms_def [symmetric]
      s1_def [symmetric] s2_def [symmetric]
    using waiting fresh e1 once late by blast
qed

text \<open>
  The first of two calls times out while the second is still waiting; a socket connects
  and the reply for the first call arrives late.
\<close>

theorem timeout_fails_dispatch_once_witness:
  "let s = run (initial ''abc123'') two_outstanding;
       s1 = step s (Timeout 0);
       s2 = run s1 [Connect];
       s3 = on_message 0 (Some (success_reply ''5-0.5'' (JNum 7))) s2
   in channel_open (run (initial ''abc123'') peer_authenticated) \<and>
      pendingRequests s ''5-0.5'' = Some (Wrapped 0) \<and>
      settled s1 = [(0, Rejected (NewError (JStr ''Request timeout after 30000ms'')))] \<and>
      pendingRequests s1 ''5-0.5'' = None \<and>
      settled s3 = [(0, Rejected (NewError (JStr ''Request timeout after 30000ms'')))] \<and>
      pendingRequests s3 = pendingRequests s2"
proof -
  define s0 where "s0 = run (initial ''abc123'') peer_authenticated"
  define s where "s = run (step s0 (Dispatch ''ping'' (Some (JObj [])) None 5 ''0.5''))
      [Dispatch ''listTabs'' (Some (JObj [])) (Some 1000) 6 ''0.25'']"
  define m where "m = success_reply ''5-0.5'' (JNum 7)"
  have rid: "requestId 5 ''0.5'' = ''5-0.5''"
    by (simp add: requestId_def show_nat_examples)
  have s_eq: "run (initial ''abc123'') two_outstanding = s"
    by (simp add: s_def s0_def two_outstanding_def run_append)
  have op: "channel_open s0"
    by (simp add: s0_def fixture_defs handler_defs)
  have n0: "nextCall s0 = 0" "settled s0 = []" "timers s0 = Map.empty"
    by (simp_all add: s0_def fixture_defs handler_defs)
  have unused: "\<forall>m t. timers s0 m = Some t \<longrightarrow> t_requestId t \<noteq> requestId 5 ''0.5''"
    by (simp add: n0)
  have quiet1: "\<forall>e \<in> set [Dispatch ''listTabs'' (Some (JObj [])) (Some 1000) 6 ''0.25''].
      \<not> carries (requestId 5 ''0.5'') e \<and> \<not> issues (requestId 5 ''0.5'') e \<and>
      e \<noteq> Timeout (nextCall s0)"
    by (simp add: carries_def issues_def requestId_def show_nat_examples)
  have st: "settled s = []"
    by (simp add: s_eq [symmetric] fixture_defs handler_defs show_nat_examples)
  have g: "get_prop m ''type'' = Inr (Some (JStr ''response''))"
    "get_prop m ''requestId'' = Inr (Some (JStr (requestId 5 ''0.5'')))"
    by (simp_all add: m_def success_reply_def rid)
  have quiet: "\<forall>e \<in> set [Connect]. \<not> issues (requestId 5 ''0.5'') e"
    by (simp add: issues_def)
  define s1 where "s1 = step s (Timeout 0)"
  define s2 where "s2 = run s1 [Connect]"
  define s3 where "s3 = on_message 0 (Some m) s2"
  note T = timeout_fails_dispatch_once [OF s0_def op unused s_def quiet1 g, of "[Connect]" 0,
      unfolded Let_def n0 rid, folded s1_def, folded s2_def, folded s3_def]
  from T have w: "pendingRequests s ''5-0.5'' = Some (Wrapped 0)" by simp
  from T have e1: "s1 = s\<lparr>timers := (timers s)(0 := None),
      pendingRequests := (pendingRequests s)(''5-0.5'' := None),
      settled := settled s @ [(0, Rejected (timeout_error 30000))]\<rparr>"
    by simp
  from T quiet have e3: "pendingRequests s3 = pendingRequests s2" "settled s3 = settled s2"
    by (simp_all add: rid)
  have e2: "settled s2 = settled s1"
    by (simp add: s2_def on_connection_def console_error_def)
  have "settled s1 = [(0, Rejected (NewError (JStr ''Request timeout after 30000ms'')))]"
    "pendingRequests s1 ''5-0.5'' = None"
    by (simp_all add: e1 st timeout_error_def show_nat_examples)
  with e2 e3 op w show ?thesis
    unfolding s_eq s0_def [symmetric] m_def [symmetric] Let_def
      s1_def [symmetric] s2_def [symmetric] s3_def [symmetric]
    by simp
qed

lemma auth_accept_effect:
  assumes "connections s c = Some conn"
    and "get_prop message ''type'' = Inr (Some (JStr ''auth''))"
    and "get_prop message ''token'' = Inr (Some (JStr (AUTH_TOKEN s)))"
  shows "on_message c (Some message) s =
     s\<lparr>console := console s @
          [(''Received from extension:'', ObjArg message),
           (''Extension authenticated successfully'', NoArg)],
       connections := (connections s)(c \<mapsto>
          conn\<lparr>authenticated := True,
               sent := sent conn @ [auth_response True ''Authentication successful'']\<rparr>),
       extensionSocket := Some c\<rparr>"
  using assms
  by (simp add: on_message_def message_try_def handle_auth_def console_error_def ws_send_def
      set_authenticated_def)

lemma auth_reject_effect:
  assumes "connections s c = Some conn"
    and "get_prop message ''type'' = Inr (Some (JStr ''auth''))"
    and "get_prop message ''token'' = Inr tok" "tok \<noteq> Some (JStr (AUTH_TOKEN s))"
  shows "on_message c (Some message) s =
     s\<lparr>console := console s @
          [(''Received from extension:'', ObjArg message),
           (''Authentication failed: invalid token'', NoArg)],
       connections := (connections s)(c \<mapsto>
          conn\<lparr>sent := sent conn @ [auth_response False ''Invalid authentication token''],
               readyState := (if readyState conn = CLOSED then CLOSED else CLOSING)\<rparr>)\<rparr>"
  using assms
  by (simp add: on_message_def message_try_def handle_auth_def console_error_def ws_send_def
      ws_close_def)

text \<open>
  C3 (the code departs from the claim). Socket 0 authenticates and is the active channel.
  Socket 1 then presents a wrong token: the handler sends the failure, calls
  \<^verbatim>\<open>ws.close()\<close> and leaves the slot on socket 0. When the close event of socket 1
  follows, the close handler (lines 102 to 105) sets the slot to \<^verbatim>\<open>null\<close> although
  socket 0 is still open and authenticated, and dispatch finds no channel.
\<close>

theorem failed_auth_close_clears_slot:
  "let s = run (initial ''abc123'')
             (peer_authenticated @ [Connect, Message 1 (Some (auth_message ''wrong''))]);
       s' = step s (Close 1)
   in extensionSocket s = Some 0 \<and>
      map_option readyState (connections s 1) = Some CLOSING \<and>
      map_option sent (connections s 1) =
        Some [auth_response False ''Invalid authentication token''] \<and>
      extensionSocket s' = None \<and>
      is_authenticated 0 s' \<and>
      map_option readyState (connections s' 0) = Some OPEN \<and>
      \<not> channel_open s'"
  by (simp add: fixture_defs handler_defs)

text \<open>
  C4. When the test of line 119 finds no open channel (no active socket, or one whose
  \<^verbatim>\<open>readyState\<close> is not OPEN), the call only rejects its own new promise with
  "Extension not connected": nothing is passed to any socket's \<^verbatim>\<open>send\<close>, no entry and
  no timer is created.
\<close>

theorem dispatch_without_channel:
  assumes "\<not> channel_open s"
  shows "sendCommandToExtension command params timeout_arg now rnd s =
     s\<lparr>nextCall := Suc (nextCall s),
       settled := settled s @
         [(nextCall s, Rejected (NewError (JStr ''Extension not connected'')))]\<rparr>"
  using assms by (rule dispatch_closed)

text \<open>
  Socket 0 is the active channel but is closing (it sent a wrong token after its
  authentication); and no socket at all.
\<close>

theorem dispatch_without_channel_witness:
  "let s = run (initial ''abc123'')
             (peer_authenticated @ [Message 0 (Some (auth_message ''wrong''))]);
       s' = sendCommandToExtension ''ping'' (Some (JObj [])) None 5 ''0.5'' s
   in extensionSocket s = Some 0 \<and>
      map_option readyState (connections s 0) = Some CLOSING \<and>
      \<not> channel_open s \<and>
      settled s' = [(0, Rejected (NewError (JStr ''Extension not connected'')))] \<and>
      connections s' = connections s \<and>
      pendingRequests s' = pendingRequests s \<and> timers s' = timers s"
proof -
  define s where "s = run (initial ''abc123'')
             (peer_authenticated @ [Message 0 (Some (auth_message ''wrong''))])"
  have a: "extensionSocket s = Some 0" "map_option readyState (connections s 0) = Some CLOSING"
    "settled s = []" "nextCall s = 0"
    by (simp_all add: s_def fixture_defs handler_defs)
  have b: "\<not> channel_open s"
    by (simp add: s_def fixture_defs handler_defs)
  show ?thesis
    unfolding Let_def s_def [symmetric]
    using a b by (simp add: dispatch_without_channel [OF b])
qed

text \<open>
  C5 (the code departs from the claim). Started without a token, or with an empty one, the
  module first constructs the \<^verbatim>\<open>WebSocketServer\<close> on port 8765 (line 25), then writes the
  three lines of remediation and exits with code 1 (lines 28 to 33). The connection
  handler is never registered, but the listener was started before the test.
\<close>

theorem startup_without_token:
  "startup [] =
     ([NewWebSocketServer 8765] @ map ConsoleError no_token_lines @ [ProcessExit 1], None) \<and>
   startup [''--token=''] =
     ([NewWebSocketServer 8765] @ map ConsoleError no_token_lines @ [ProcessExit 1], None) \<and>
   startup [''--token=abc123''] =
     ([NewWebSocketServer 8765, OnListening, OnServerError, OnConnection], Some ''abc123'')"
  by (simp add: startup_def parse_AUTH_TOKEN_def tokenArg_def startsWith_def js_index_def
      WS_PORT_def)

text \<open>
  C6, as the claim states it, fails on the payload \<^verbatim>\<open>null\<close>: it parses, the read of
  \<^verbatim>\<open>message.type\<close> throws, the \<^verbatim>\<open>catch\<close> logs, and no notice is sent.
\<close>

theorem null_message_gets_no_notice:
  "let s = run (initial ''abc123'') [Connect];
       s' = on_message 0 (Some JNull) s
   in connections s 0 = Some \<lparr>authenticated = False, readyState = OPEN, sent = []\<rparr> \<and>
      connections s' 0 = connections s 0 \<and>
      console s' = console s @
        [(''Received from extension:'', ObjArg JNull),
         (''Error parsing message from extension:'', ErrArg TypeError)]"
  by (simp add: handler_defs)

text \<open>
  C6, amended. Every parsed message other than \<^verbatim>\<open>null\<close> whose type is not "auth",
  on a socket that has not authenticated: the handler passes the not-authenticated notice
  to that socket's \<^verbatim>\<open>send\<close> and writes two log lines; the socket is not closed, and
  the table, the timers, the settlements and the active slot are unchanged.
\<close>

theorem unauthenticated_message_rejected:
  assumes "connections s c = Some conn" "\<not> authenticated conn"
    and "message \<noteq> JNull"
    and "get_prop message ''type'' \<noteq> Inr (Some (JStr ''auth''))"
  shows "on_message c (Some message) s =
     s\<lparr>console := console s @
          [(''Received from extension:'', ObjArg message),
           (''Rejecting message from unauthenticated connection'', NoArg)],
       connections := (connections s)(c \<mapsto>
          conn\<lparr>sent := sent conn @ [not_authenticated_notice]\<rparr>)\<rparr>"
proof -
  from get_prop_not_null [OF assms(3)] obtain ty where "get_prop message ''type'' = Inr ty"
    by blast
  with assms show ?thesis
    by (simp add: on_message_def message_try_def is_authenticated_def console_error_def
        ws_send_def)
qed

theorem unauthenticated_message_rejected_witness:
  "let s = run (initial ''abc123'') (two_outstanding @ [Connect]);
       s' = on_message 1 (Some (success_reply ''5-0.5'' (JNum 7))) s
   in connections s 1 = Some \<lparr>authenticated = False, readyState = OPEN, sent = []\<rparr> \<and>
      connections s' 1 =
        Some \<lparr>authenticated = False, readyState = OPEN, sent = [not_authenticated_notice]\<rparr> \<and>
      pendingRequests s' = pendingRequests s \<and> timers s' = timers s \<and>
      settled s' = settled s \<and> extensionSocket s' = extensionSocket s"
proof -
  define s where "s = run (initial ''abc123'') (two_outstanding @ [Connect])"
  have c: "connections s 1 = Some \<lparr>authenticated = False, readyState = OPEN, sent = []\<rparr>"
    by (simp add: s_def fixture_defs handler_defs)
  have n: "\<not> authenticated \<lparr>authenticated = False, readyState = OPEN, sent = []\<rparr>"
    "success_reply ''5-0.5'' (JNum 7) \<noteq> JNull"
    "get_prop (success_reply ''5-0.5'' (JNum 7)) ''type'' \<noteq> Inr (Some (JStr ''auth''))"
    by (simp_all add: success_reply_def)
  show ?thesis
    unfolding Let_def s_def [symmetric] unauthenticated_message_rejected [OF c n]
    using c by simp
qed

text \<open>
  C7, as the claim states it, fails in its last clause. A call is outstanding when the
  active socket closes; the peer connects again as socket 1, authenticates and sends a
  reply with \<open>success\<close> false for the call's id. The call fails by that reply while its
  timer is still set.
\<close>

theorem reject_reply_after_close:
  "let s = run (initial ''abc123'')
             (peer_authenticated @
              [Dispatch ''ping'' (Some (JObj [])) None 5 ''0.5'', Close 0, Connect,
               Message 1 (Some (auth_message ''abc123''))]);
       s' = step s (Message 1 (Some (failure_reply ''5-0.5'' ''tab crashed'')))
   in settled s = [] \<and>
      map_option t_requestId (timers s 0) = Some ''5-0.5'' \<and>
      pendingRequests s ''5-0.5'' = Some (Wrapped 0) \<and>
      settled s' = [(0, Rejected (NewError (JStr ''tab crashed'')))]"
  by (simp add: fixture_defs handler_defs show_nat_examples)

text \<open>
  C7, amended. The close event of the socket that is the active channel clears the slot
  and resolves and rejects nothing: the table, the timers and the settlements are what
  they were. After it, whatever events \<open>evs2\<close> follow, one more event \<open>e\<close> adds a
  settlement only in three ways: the timer of a call fires and rejects that call with its
  timeout error; a reply envelope on an authenticated socket settles the call whose entry
  its id finds; or a new dispatch finds no open channel and rejects its own new promise.
  So an outstanding call fails only by its own timeout or by a reply that carries its id.
\<close>

theorem close_leaves_calls_to_timeout_or_reply:
  assumes "s = run (initial tok) evs" "extensionSocket s = Some c" "live c s"
  shows "let sc = step s (Close c); s' = run sc evs2
         in extensionSocket sc = None \<and> pendingRequests sc = pendingRequests s \<and>
            timers sc = timers s \<and> settled sc = settled s \<and>
            (settled (step s' e) = settled s' \<or>
             (\<exists>n t. e = Timeout n \<and> timers s' n = Some t \<and>
                settled (step s' e) =
                  settled s' @ [(n, Rejected (timeout_error (t_timeout t)))]) \<or>
             (\<exists>d m rid n. e = Message d (Some m) \<and> is_authenticated d s' \<and>
                get_prop m ''type'' = Inr (Some (JStr ''response'')) \<and>
                get_prop m ''requestId'' = Inr (Some (JStr rid)) \<and>
                pendingRequests s' rid = Some (Wrapped n) \<and>
                settled (step s' e) = settled s' @ [(n, reply_outcome m)]) \<or>
             (\<exists>command params timeout_arg now rnd.
                e = Dispatch command params timeout_arg now rnd \<and> \<not> channel_open s' \<and>
                settled (step s' e) =
                  settled s' @
                  [(nextCall s', Rejected (NewError (JStr ''Extension not connected'')))]))"
proof -
  have frame: "extensionSocket (step s (Close c)) = None"
    "pendingRequests (step s (Close c)) = pendingRequests s"
    "timers (step s (Close c)) = timers s" "settled (step s (Close c)) = settled s"
    using assms(2,3)
    by (simp_all add: on_close_def console_error_def mark_closed_def split: option.splits)
  have "wf (run (step s (Close c)) evs2)"
    unfolding assms(1) by (intro wf_run wf_step wf_reachable)
  from settlement_sources [OF this, of e] frame show ?thesis
    unfolding Let_def by blast
qed

theorem close_leaves_calls_to_timeout_or_reply_witness:
  "let s = run (initial ''abc123'') two_outstanding;
       sc = step s (Close 0);
       s' = run sc [Connect, Message 1 (Some (auth_message ''abc123''))];
       s'' = step s' (Timeout 1)
   in extensionSocket s = Some 0 \<and> live 0 s \<and>
      extensionSocket sc = None \<and>
      pendingRequests sc ''5-0.5'' = Some (Wrapped 0) \<and>
      pendingRequests sc ''6-0.25'' = Some (Wrapped 1) \<and>
      timers sc = timers s \<and> settled sc = [] \<and>
      settled s'' = [(1, Rejected (NewError (JStr ''Request timeout after 1000ms'')))]"
proof -
  define s where "s = run (initial ''abc123'') two_outstanding"
  define sc where "sc = step s (Close 0)"
  define s' where "s' = run sc [Connect, Message 1 (Some (auth_message ''abc123''))]"
  have a: "extensionSocket s = Some 0" "live 0 s"
    "pendingRequests s ''5-0.5'' = Some (Wrapped 0)"
    "pendingRequests s ''6-0.25'' = Some (Wrapped 1)" "settled s = []"
    by (simp_all add: s_def fixture_defs handler_defs show_nat_examples)
  have b: "settled s' = []" "timers s' 1 = Some \<lparr>t_requestId = ''6-0.25'', t_timeout = 1000\<rparr>"
    by (simp_all add: s'_def sc_def s_def fixture_defs handler_defs show_nat_examples)
  note T = close_leaves_calls_to_timeout_or_reply [OF s_def a(1,2),
      of "[Connect, Message 1 (Some (auth_message ''abc123''))]" "Timeout 1",
      unfolded Let_def, folded sc_def, folded s'_def]
  from T have frame: "extensionSocket sc = None" "pendingRequests sc = pendingRequests s"
    "timers sc = timers s" "settled sc = settled s"
    by simp_all
  from T b have "settled (step s' (Timeout 1)) = settled s' \<or>
      settled (step s' (Timeout 1)) = [(1, Rejected (timeout_error 1000))]"
    by auto
  moreover have "settled (step s' (Timeout 1)) \<noteq> settled s'"
    using b by (simp add: timeout_callback_def clearTimeout_def settle_def s'_def sc_def s_def
        fixture_defs handler_defs show_nat_examples)
  ultimately have "settled (step s' (Timeout 1)) =
      [(1, Rejected (NewError (JStr ''Request timeout after 1000ms'')))]"
    by (simp add: timeout_error_def show_nat_examples)
  with a frame show ?thesis
    unfolding Let_def s_def [symmetric] sc_def [symmetric] s'_def [symmetric] by simp
qed

text \<open>
  C8, as the claim states it, fails when two calls read the same clock value and the same
  random text: both get the id "5-0.5". Both calls are outstanding (their timers are set,
  nothing is settled), and the one entry of the table belongs to the second call.
\<close>

theorem same_clock_same_random_collide:
  "let s = run (initial ''abc123'')
             (peer_authenticated @
              [Dispatch ''ping'' (Some (JObj [])) None 5 ''0.5'',
               Dispatch ''ping'' (Some (JObj [])) None 5 ''0.5''])
   in map_option t_requestId (timers s 0) = Some ''5-0.5'' \<and>
      map_option t_requestId (timers s 1) = Some ''5-0.5'' \<and>
      settled s = [] \<and>
      pendingRequests s ''5-0.5'' = Some (Wrapped 1)"
  by (simp add: fixture_defs handler_defs show_nat_examples)

text \<open>
  C8, amended. The id of a call is the decimal text of the clock, a hyphen and the text of
  the random number, so two calls get the same id exactly when they read the same clock
  value and the same random text; nothing compares a new id with the live entries. The
  table is keyed by the id: a dispatch on an open channel stores its pair under its id,
  in place of any entry that was there, and leaves the entries of all other ids alone.
\<close>

theorem request_ids:
  "requestId now rnd = show_nat now @ ''-'' @ rnd \<and>
   (requestId now rnd = requestId now' rnd' \<longleftrightarrow> now = now' \<and> rnd = rnd') \<and>
   (channel_open s \<longrightarrow>
      pendingRequests (sendCommandToExtension command params timeout_arg now rnd s) =
        (pendingRequests s)(requestId now rnd \<mapsto> Wrapped (nextCall s)))"
proof (intro conjI impI)
  show "requestId now rnd = show_nat now @ ''-'' @ rnd" by (simp add: requestId_def)
  show "requestId now rnd = requestId now' rnd' \<longleftrightarrow> now = now' \<and> rnd = rnd'"
    by (rule requestId_inj)
  assume "channel_open s"
  from dispatch_open [OF this, of command params timeout_arg now rnd]
  show "pendingRequests (sendCommandToExtension command params timeout_arg now rnd s) =
        (pendingRequests s)(requestId now rnd \<mapsto> Wrapped (nextCall s))"
    by auto
qed

theorem request_ids_witness:
  "let s = run (initial ''abc123'') two_outstanding;
       s' = sendCommandToExtension ''click'' None None 7 ''0.125'' s
   in channel_open s \<and> requestId 7 ''0.125'' = ''7-0.125'' \<and>
      requestId 5 ''0.5'' \<noteq> requestId 5 ''0.25'' \<and>
      pendingRequests s' ''7-0.125'' = Some (Wrapped 2) \<and>
      pendingRequests s' ''5-0.5'' = Some (Wrapped 0) \<and>
      pendingRequests s' ''6-0.25'' = Some (Wrapped 1)"
proof -
  define s where "s = run (initial ''abc123'') two_outstanding"
  have a: "channel_open s" "nextCall s = 2"
    "pendingRequests s ''5-0.5'' = Some (Wrapped 0)"
    "pendingRequests s ''6-0.25'' = Some (Wrapped 1)"
    by (simp_all add: s_def fixture_defs handler_defs show_nat_examples)
  have r: "requestId 7 ''0.125'' = ''7-0.125''"
    by (simp add: requestId_def show_nat.simps digit_char_def)
  from request_ids [of 5 "''0.5''" 5 "''0.25''" s "''click''" None None]
  have ne: "requestId 5 ''0.5'' \<noteq> requestId 5 ''0.25''" by blast
  from request_ids [of 7 "''0.125''" 7 "''0.125''" s "''click''" None None] a(1)
  have "pendingRequests (sendCommandToExtension ''click'' None None 7 ''0.125'' s) =
        (pendingRequests s)(requestId 7 ''0.125'' \<mapsto> Wrapped (nextCall s))"
    by blast
  with a r ne show ?thesis
    unfolding Let_def s_def [symmetric] by simp
qed

text \<open>
  C9. A payload that \<^verbatim>\<open>JSON.parse\<close> cannot decode, on any socket in any state: the
  exception is thrown inside the \<^verbatim>\<open>try\<close> block and caught; the handler returns with
  one more log line and nothing else changed: the socket is neither closed nor written
  to, and the table, the timers, the settlements and the active slot are as before.
\<close>

theorem undecodable_payload_discarded:
  "message_try c None s = Inl (SyntaxError, s) \<and>
   on_message c None s =
     s\<lparr>console := console s @
          [(''Error parsing message from extension:'', ErrArg SyntaxError)]\<rparr>"
  by (simp add: on_message_def message_try_def console_error_def)

text \<open>
  C10. Socket \<open>c\<close> presents the right token in some reachable state; any events follow,
  after which another socket \<open>d\<close> holds the active slot. The flag of \<open>c\<close> is still set,
  and a reply envelope from \<open>c\<close> whose id has an entry is processed as that of the active
  channel would be: it settles the call that registered the id, clears its timer and
  deletes the entry. As in C1 the envelope is one whose error text can be built.
\<close>

theorem superseded_socket_still_replies:
  assumes "s0 = run (initial tok) evs0" "live c s0"
    and "get_prop a ''type'' = Inr (Some (JStr ''auth''))"
    and "get_prop a ''token'' = Inr (Some (JStr tok))"
    and "s = run (step s0 (Message c (Some a))) evs1"
    and "extensionSocket s = Some d" "d \<noteq> c"
    and "get_prop message ''type'' = Inr (Some (JStr ''response''))"
    and "get_prop message ''requestId'' = Inr (Some (JStr rid))"
    and "get_prop message ''success'' = Inr ok" "get_prop message ''data'' = Inr dat"
      "get_prop message ''error'' = Inr er"
    and "pendingRequests s rid = Some k"
    and "truthy ok \<or> \<not> toString_throws (or_else er (JStr ''Unknown error''))"
  shows "is_authenticated c s \<and>
    (\<exists>n t. k = Wrapped n \<and> timers s n = Some t \<and> t_requestId t = rid \<and>
       n \<notin> fst ` set (settled s) \<and>
       on_message c (Some message) s =
         s\<lparr>console := console s @ [(''Received from extension:'', ObjArg message)],
           timers := (timers s)(n := None),
           settled := settled s @
             [(n, if truthy ok then Resolved dat
                  else Rejected (NewError (or_else er (JStr ''Unknown error''))))],
           pendingRequests := (pendingRequests s)(rid := None)\<rparr>)"
proof -
  define sa where "sa = step s0 (Message c (Some a))"
  from sticky_run [OF fresh_initial, of tok evs0]
  have f0: "fresh_sockets s0" "AUTH_TOKEN s0 = tok"
    by (simp_all add: assms(1) initial_def)
  from assms(2) obtain conn0 where conn0: "connections s0 c = Some conn0"
    by (auto simp: live_def split: option.splits)
  have "sa = on_message c (Some a) s0" using assms(2) by (simp add: sa_def)
  with auth_accept_effect [OF conn0 assms(3)] assms(4) f0(2)
  have "is_authenticated c sa" by (simp add: is_authenticated_def)
  moreover have "fresh_sockets sa"
    unfolding sa_def using sticky_step [OF f0(1)] by blast
  ultimately have au: "is_authenticated c s"
    using sticky_run [of sa evs1 c] by (simp add: assms(5) sa_def)
  then obtain conn where conn: "connections s c = Some conn" "authenticated conn"
    by (auto simp: is_authenticated_def split: option.splits)
  have "wf sa" unfolding sa_def assms(1) by (intro wf_step wf_reachable)
  then have "wf s" unfolding assms(5) sa_def [symmetric] by (rule wf_run)
  from reply_effect [OF this conn assms(8-)] au show ?thesis by blast
qed

text \<open>
  Socket 0 authenticates and a call goes out on it; socket 1 authenticates and takes the
  slot; the reply then comes from socket 0 and resolves the call.
\<close>

theorem superseded_socket_still_replies_witness:
  "let s = run (initial ''abc123'')
             (peer_authenticated @
              [Dispatch ''ping'' (Some (JObj [])) None 5 ''0.5'', Connect,
               Message 1 (Some (auth_message ''abc123''))]);
       s' = on_message 0 (Some (success_reply ''5-0.5'' (JNum 7))) s
   in extensionSocket s = Some 1 \<and> is_authenticated 0 s \<and>
      pendingRequests s ''5-0.5'' = Some (Wrapped 0) \<and>
      settled s' = [(0, Resolved (Some (JNum 7)))] \<and>
      pendingRequests s' ''5-0.5'' = None \<and> timers s' 0 = None \<and>
      extensionSocket s' = Some 1"
proof -
  define s0 where "s0 = run (initial ''abc123'') [Connect]"
  define s where "s = run (step s0 (Message 0 (Some (auth_message ''abc123''))))
     [Dispatch ''ping'' (Some (JObj [])) None 5 ''0.5'', Connect,
      Message 1 (Some (auth_message ''abc123''))]"
  define m where "m = success_reply ''5-0.5'' (JNum 7)"
  have s_eq: "run (initial ''abc123'')
             (peer_authenticated @
              [Dispatch ''ping'' (Some (JObj [])) None 5 ''0.5'', Connect,
               Message 1 (Some (auth_message ''abc123''))]) = s"
    by (simp add: s_def s0_def peer_authenticated_def)
  have l: "live 0 s0" by (simp add: s0_def handler_defs)
  have a: "get_prop (auth_message ''abc123'') ''type'' = Inr (Some (JStr ''auth''))"
    "get_prop (auth_message ''abc123'') ''token'' = Inr (Some (JStr ''abc123''))"
    by (simp_all add: auth_message_def)
  have p: "extensionSocket s = Some 1" "(1::nat) \<noteq> 0"
    "pendingRequests s ''5-0.5'' = Some (Wrapped 0)" "settled s = []"
    by (simp_all add: s_def s0_def fixture_defs handler_defs show_nat_examples)
  have g: "get_prop m ''type'' = Inr (Some (JStr ''response''))"
    "get_prop m ''requestId'' = Inr (Some (JStr ''5-0.5''))"
    "get_prop m ''success'' = Inr (Some (JBool True))"
    "get_prop m ''data'' = Inr (Some (JNum 7))"
    "get_prop m ''error'' = Inr None"
    by (simp_all add: m_def success_reply_def)
  from superseded_socket_still_replies [OF s0_def l a s_def p(1,2) g p(3)]
  obtain n where au: "is_authenticated 0 s" and n: "Wrapped 0 = Wrapped n" and
    e: "on_message 0 (Some m) s =
       s\<lparr>console := console s @ [(''Received from extension:'', ObjArg m)],
         timers := (timers s)(n := None),
         settled := settled s @ [(n, Resolved (Some (JNum 7)))],
         pendingRequests := (pendingRequests s)(''5-0.5'' := None)\<rparr>"
    by auto
  from n have n0: "n = 0" by simp
  show ?thesis
    unfolding Let_def s_eq m_def [symmetric] e n0
    using au p by simp
qed

lemma unconvertible_effect:
  assumes "connections s c = Some conn" "authenticated conn"
    and "get_prop message ''type'' = Inr (Some (JStr ''response''))"
    and "get_prop message ''requestId'' = Inr (Some (JStr rid))"
    and "get_prop message ''success'' = Inr ok" "get_prop message ''error'' = Inr er"
    and "pendingRequests s rid = Some k" "rid \<noteq> []"
    and "\<not> truthy ok" "toString_throws (or_else er (JStr ''Unknown error''))"
  shows "on_message c (Some message) s =
     s\<lparr>console := console s @
          [(''Received from extension:'', ObjArg message),
           (''Error parsing message from extension:'', ErrArg TypeError)]\<rparr>"
  using assms
  by (simp add: on_message_def message_try_def handle_response_def is_authenticated_def
      console_error_def table_get_def Let_def)

text \<open>
  The other case of line 92. A reply with a falsy \<open>success\<close> whose \<open>error\<close> member does
  not convert to a string (an object with a member named toString, or an array holding
  one) and whose id has an entry: building the error throws, the \<^verbatim>\<open>catch\<close> logs, and
  the handler returns without having called \<^verbatim>\<open>reject\<close> or \<^verbatim>\<open>delete\<close>: the promise
  is not settled and the entry and its timer stay.
\<close>

theorem reply_with_unconvertible_error:
  assumes "s = run (initial tok) evs"
    and "connections s c = Some conn" "authenticated conn"
    and "get_prop message ''type'' = Inr (Some (JStr ''response''))"
    and "get_prop message ''requestId'' = Inr (Some (JStr rid))"
    and "get_prop message ''success'' = Inr ok" "get_prop message ''error'' = Inr er"
    and "pendingRequests s rid = Some k"
    and "\<not> truthy ok" "toString_throws (or_else er (JStr ''Unknown error''))"
  shows "on_message c (Some message) s =
     s\<lparr>console := console s @
          [(''Received from extension:'', ObjArg message),
           (''Error parsing message from extension:'', ErrArg TypeError)]\<rparr>"
proof -
  have "wf s" unfolding assms(1) by (rule wf_reachable)
  from wf_entry [OF this assms(8)] have "rid \<noteq> []" by simp
  from unconvertible_effect [OF assms(2-8) this assms(9,10)] show ?thesis .
qed

theorem reply_with_unconvertible_error_witness:
  "let s = run (initial ''abc123'') two_outstanding;
       m = JObj [(''type'', JStr ''response''), (''requestId'', JStr ''5-0.5''),
                 (''success'', JBool False), (''error'', JObj [(''toString'', JNum 1)])];
       s' = on_message 0 (Some m) s
   in pendingRequests s ''5-0.5'' = Some (Wrapped 0) \<and>
      settled s' = [] \<and> pendingRequests s' = pendingRequests s \<and> timers s' = timers s \<and>
      console s' = console s @
          [(''Received from extension:'', ObjArg m),
           (''Error parsing message from extension:'', ErrArg TypeError)]"
proof -
  define s where "s = run (initial ''abc123'') two_outstanding"
  define m where "m = JObj [(''type'', JStr ''response''), (''requestId'', JStr ''5-0.5''),
                 (''success'', JBool False), (''error'', JObj [(''toString'', JNum 1)])]"
  have c: "connections s 0 = Some \<lparr>authenticated = True, readyState = OPEN,
      sent = [auth_response True ''Authentication successful'',
              command_message ''5-0.5'' ''ping'' (Some (JObj [])),
              command_message ''6-0.25'' ''listTabs'' (Some (JObj []))]\<rparr>"
    by (simp add: s_def fixture_defs handler_defs show_nat_examples)
  have p: "pendingRequests s ''5-0.5'' = Some (Wrapped 0)" "settled s = []"
    by (simp_all add: s_def fixture_defs handler_defs show_nat_examples)
  have g: "get_prop m ''type'' = Inr (Some (JStr ''response''))"
    "get_prop m ''requestId'' = Inr (Some (JStr ''5-0.5''))"
    "get_prop m ''success'' = Inr (Some (JBool False))"
    "get_prop m ''error'' = Inr (Some (JObj [(''toString'', JNum 1)]))"
    by (simp_all add: m_def)
  have t: "\<not> truthy (Some (JBool False))"
    "toString_throws (or_else (Some (JObj [(''toString'', JNum 1)])) (JStr ''Unknown error''))"
    by (simp_all add: or_else_def)
  have a: "authenticated \<lparr>authenticated = True, readyState = OPEN,
      sent = [auth_response True ''Authentication successful'',
              command_message ''5-0.5'' ''ping'' (Some (JObj [])),
              command_message ''6-0.25'' ''listTabs'' (Some (JObj []))]\<rparr>"
    by simp
  show ?thesis
    unfolding Let_def s_def [symmetric] m_def [symmetric]
      reply_with_unconvertible_error [OF s_def c a g p(1) t]
    using p by simp
qed

text \<open>
  What the handler does with an auth message, taken alone (without the close event that
  follows a rejection). The right token: the
  socket's flag is set, the socket becomes the active channel and is told so; a socket
  that held the slot before is not touched.
\<close>

theorem auth_accepted:
  assumes "connections s c = Some conn"
    and "get_prop message ''type'' = Inr (Some (JStr ''auth''))"
    and "get_prop message ''token'' = Inr (Some (JStr (AUTH_TOKEN s)))"
  shows "on_message c (Some message) s =
     s\<lparr>console := console s @
          [(''Received from extension:'', ObjArg message),
           (''Extension authenticated successfully'', NoArg)],
       connections := (connections s)(c \<mapsto>
          conn\<lparr>authenticated := True,
               sent := sent conn @ [auth_response True ''Authentication successful'']\<rparr>),
       extensionSocket := Some c\<rparr>"
  using assms by (rule auth_accept_effect)

theorem auth_accepted_witness:
  "let s = run (initial ''abc123'') (peer_authenticated @ [Connect]);
       s' = on_message 1 (Some (auth_message ''abc123'')) s
   in extensionSocket s = Some 0 \<and> extensionSocket s' = Some 1 \<and>
      is_authenticated 1 s' \<and> connections s' 0 = connections s 0 \<and>
      map_option readyState (connections s' 0) = Some OPEN"
proof -
  define s where "s = run (initial ''abc123'') (peer_authenticated @ [Connect])"
  have c: "connections s 1 = Some \<lparr>authenticated = False, readyState = OPEN, sent = []\<rparr>"
    "extensionSocket s = Some 0" "map_option readyState (connections s 0) = Some OPEN"
    "AUTH_TOKEN s = ''abc123''"
    by (simp_all add: s_def fixture_defs handler_defs)
  have a: "get_prop (auth_message ''abc123'') ''type'' = Inr (Some (JStr ''auth''))"
    "get_prop (auth_message ''abc123'') ''token'' = Inr (Some (JStr (AUTH_TOKEN s)))"
    by (simp_all add: auth_message_def c)
  show ?thesis
    unfolding Let_def s_def [symmetric] auth_accepted [OF c(1) a]
    using c by (simp add: is_authenticated_def)
qed

text \<open>
  Any other token (or none): the socket is sent the failure and \<^verbatim>\<open>ws.close()\<close> is
  called on it; the handler itself leaves the active slot and every other socket as they
  were.
\<close>

theorem auth_rejected:
  assumes "connections s c = Some conn"
    and "get_prop message ''type'' = Inr (Some (JStr ''auth''))"
    and "get_prop message ''token'' = Inr tok" "tok \<noteq> Some (JStr (AUTH_TOKEN s))"
  shows "on_message c (Some message) s =
     s\<lparr>console := console s @
          [(''Received from extension:'', ObjArg message),
           (''Authentication failed: invalid token'', NoArg)],
       connections := (connections s)(c \<mapsto>
          conn\<lparr>sent := sent conn @ [auth_response False ''Invalid authentication token''],
               readyState := (if readyState conn = CLOSED then CLOSED else CLOSING)\<rparr>)\<rparr>"
  using assms by (rule auth_reject_effect)

theorem auth_rejected_witness:
  "let s = run (initial ''abc123'') (peer_authenticated @ [Connect]);
       s' = on_message 1 (Some (auth_message ''wrong'')) s
   in extensionSocket s = Some 0 \<and> extensionSocket s' = Some 0 \<and>
      connections s' 1 =
        Some \<lparr>authenticated = False, readyState = CLOSING,
              sent = [auth_response False ''Invalid authentication token'']\<rparr> \<and>
      connections s' 0 = connections s 0"
proof -
  define s where "s = run (initial ''abc123'') (peer_authenticated @ [Connect])"
  have c: "connections s 1 = Some \<lparr>authenticated = False, readyState = OPEN, sent = []\<rparr>"
    "extensionSocket s = Some 0" "AUTH_TOKEN s = ''abc123''"
    by (simp_all add: s_def fixture_defs handler_defs)
  have a: "get_prop (auth_message ''wrong'') ''type'' = Inr (Some (JStr ''auth''))"
    "get_prop (auth_message ''wrong'') ''token'' = Inr (Some (JStr ''wrong''))"
    "Some (JStr ''wrong'') \<noteq> Some (JStr (AUTH_TOKEN s))"
    by (simp_all add: auth_message_def c)
  show ?thesis
    unfolding Let_def s_def [symmetric] auth_rejected [OF c(1) a]
    using c by simp
qed

end
